theory Spec2Isabelle
  imports
    Complex_Main
    "HOL-Library.Char_ord"
    "HOL-Library.List_Lexorder"
    "HOL-Library.Multiset"
begin

section \<open>Python values and built-ins used by the sources\<close>

text \<open>
  The sources are \<^verbatim>\<open>src/lambda/case-cleanup/app.py\<close> and
  \<^verbatim>\<open>src/lambda/common/utils.py\<close>. Strings are \<open>string\<close>, compared as Python
  compares \<^verbatim>\<open>str\<close> (code point by code point, a proper prefix first): the order of
  \<open>List_Lexorder\<close> over \<open>Char_ord\<close>. Python's \<^verbatim>\<open>int\<close> is \<open>int\<close>, its
  \<^verbatim>\<open>float\<close> is idealised as \<open>real\<close>. Log output is not modelled.
\<close>

text \<open>The exceptions the modelled code raises, catches or passes on.\<close>

datatype exn =
    ClientError string
  | IndexError
  | ValueError
  | TypeError
  | OverflowError
  | OtherException string

text \<open>\<^verbatim>\<open>xs[:k]\<close>: a negative bound counts from the end of the list.\<close>

definition py_slice_to :: "'a list \<Rightarrow> int \<Rightarrow> 'a list" where
  "py_slice_to xs k =
     (if k < 0 then take (nat (int (length xs) + k)) xs else take (nat k) xs)"

text \<open>\<^verbatim>\<open>xs[i]\<close> for a literal index \<open>i \<ge> 0\<close>: IndexError out of range.\<close>

definition py_index :: "'a list \<Rightarrow> nat \<Rightarrow> exn + 'a" where
  "py_index xs i = (if i < length xs then Inr (xs ! i) else Inl IndexError)"

text \<open>\<^verbatim>\<open>s.split(sep)\<close> for a one-character separator: never the empty list.\<close>

fun py_split :: "char \<Rightarrow> string \<Rightarrow> string list" where
  "py_split sep [] = [[]]"
| "py_split sep (c # cs) =
     (if c = sep then [] # py_split sep cs
      else (case py_split sep cs of
              [] \<Rightarrow> [[c]]
            | p # ps \<Rightarrow> (c # p) # ps))"

text \<open>\<^verbatim>\<open>s.rstrip(ch)\<close> and \<^verbatim>\<open>s.strip(ch)\<close> for a one-character argument.\<close>

definition py_rstrip :: "char \<Rightarrow> string \<Rightarrow> string" where
  "py_rstrip ch s = rev (dropWhile (\<lambda>c. c = ch) (rev s))"

definition py_strip :: "char \<Rightarrow> string \<Rightarrow> string" where
  "py_strip ch s = py_rstrip ch (dropWhile (\<lambda>c. c = ch) s)"

definition py_startswith :: "string \<Rightarrow> string \<Rightarrow> bool" where
  "py_startswith s pre = (take (length pre) s = pre)"

definition py_endswith :: "string \<Rightarrow> string \<Rightarrow> bool" where
  "py_endswith s suf =
     (length suf \<le> length s \<and> drop (length s - length suf) s = suf)"

text \<open>
  \<^verbatim>\<open>os.environ.get(name, default)\<close>, and \<^verbatim>\<open>str.lower\<close> and \<^verbatim>\<open>str.strip\<close>. A string is a
  list of 8-bit characters, read as the code points below 256: \<^verbatim>\<open>str.lower\<close> maps
  \<^verbatim>\<open>A\<close> to \<^verbatim>\<open>Z\<close> and the upper-case letters U+00C0 to U+00DE (but not the sign U+00D7)
  to the code point 32 higher, and \<^verbatim>\<open>str.strip()\<close> removes the code points for which
  \<^verbatim>\<open>str.isspace\<close> holds, among them U+0085 and U+00A0.
\<close>

definition environ_get :: "(string \<rightharpoonup> string) \<Rightarrow> string \<Rightarrow> string \<Rightarrow> string" where
  "environ_get environ name dflt =
     (case environ name of None \<Rightarrow> dflt | Some v \<Rightarrow> v)"

definition py_isupper :: "char \<Rightarrow> bool" where
  "py_isupper c =
     ((65::nat) \<le> of_char c \<and> of_char c \<le> (90::nat)
      \<or> (192::nat) \<le> of_char c \<and> of_char c \<le> (222::nat) \<and> of_char c \<noteq> (215::nat))"

definition py_lower :: "string \<Rightarrow> string" where
  "py_lower s = map (\<lambda>c. if py_isupper c then char_of (of_char c + (32::nat)) else c) s"

definition py_isspace :: "char \<Rightarrow> bool" where
  "py_isspace c = (of_char c \<in> {9, 10, 11, 12, 13, 28, 29, 30, 31, 32, 133, 160 :: nat})"

definition py_strip_whitespace :: "string \<Rightarrow> string" where
  "py_strip_whitespace s = rev (dropWhile py_isspace (rev (dropWhile py_isspace s)))"

section \<open>The cleanup function: src/lambda/case-cleanup/app.py\<close>

subsection \<open>The storage and metrics services\<close>

text \<open>
  The calls the function issues to the outside: the two paginated listings (with and
  without the delimiter \<^verbatim>\<open>/\<close>), \<^verbatim>\<open>head_object\<close>, \<^verbatim>\<open>delete_objects\<close> and
  \<^verbatim>\<open>put_metric_data\<close>, each with its bucket (or metric namespace) and argument.
\<close>

datatype call =
    ListCommonPrefixes string string
  | ListContents string string
  | HeadObject string string
  | DeleteObjects string "string list"
  | PutMetricData string "(string \<times> int) list"

text \<open>An entry of \<^verbatim>\<open>response['Errors']\<close> of a bulk delete.\<close>

record delete_error =
  error_key :: string
  error_code :: string
  error_message :: string

text \<open>
  The services are outside the program: a response is any function of the calls issued
  so far and of the call, so it may change from call to call and fail at any
  call. A listing's response is the \<^verbatim>\<open>CommonPrefixes\<close> (or the keys of the
  \<^verbatim>\<open>Contents\<close>) of all its pages, or the exception a page raised; a delete's response
  is its \<^verbatim>\<open>Errors\<close> list, empty when the key is absent. \<open>utcnow\<close> is the clock.
  Constructing a client (\<^verbatim>\<open>boto3.client\<close>) is taken to succeed.
\<close>

record aws =
  list_common_prefixes :: "call list \<Rightarrow> string \<Rightarrow> string \<Rightarrow> exn + string list"
  list_contents :: "call list \<Rightarrow> string \<Rightarrow> string \<Rightarrow> exn + string list"
  head_object :: "call list \<Rightarrow> string \<Rightarrow> string \<Rightarrow> exn + unit"
  delete_objects :: "call list \<Rightarrow> string \<Rightarrow> string list \<Rightarrow> exn + delete_error list"
  put_metric_data :: "call list \<Rightarrow> string \<Rightarrow> (string \<times> int) list \<Rightarrow> exn + unit"
  utcnow :: "call list \<Rightarrow> real"

subsection \<open>Listing and the completion check\<close>

text \<open>
  Every function takes the list of the calls issued so far and returns it extended. A
  handler that logs and re-raises passes the exception on unchanged.
\<close>

definition list_account_folders ::
  "aws \<Rightarrow> string \<Rightarrow> call list \<Rightarrow> (exn + string list) \<times> call list" where
  "list_account_folders env bucket calls =
     (list_common_prefixes env calls bucket ''account_number='',
      calls @ [ListCommonPrefixes bucket ''account_number=''])"

definition list_case_folders ::
  "aws \<Rightarrow> string \<Rightarrow> string \<Rightarrow> call list \<Rightarrow> (exn + string list) \<times> call list" where
  "list_case_folders env bucket account_folder calls =
     (list_common_prefixes env calls bucket account_folder,
      calls @ [ListCommonPrefixes bucket account_folder])"

text \<open>
  \<^verbatim>\<open>except ClientError\<close> catches only a ClientError: code 404 gives False, any other
  code is re-raised, and any other exception is not caught at all.
\<close>

definition check_case_completion ::
  "aws \<Rightarrow> string \<Rightarrow> string \<Rightarrow> call list \<Rightarrow> (exn + bool) \<times> call list" where
  "check_case_completion env processed_bucket case_folder calls =
     (let processed_key = case_folder @ ''data.json'' in
      (case head_object env calls processed_bucket processed_key of
         Inr u \<Rightarrow> Inr True
       | Inl (ClientError code) \<Rightarrow>
           if code = ''404'' then Inr False else Inl (ClientError code)
       | Inl e \<Rightarrow> Inl e,
       calls @ [HeadObject processed_bucket processed_key]))"

definition get_case_info_from_folder :: "string \<Rightarrow> exn + string \<times> string" where
  "get_case_info_from_folder case_folder =
     (let parts = py_split CHR ''/'' (py_strip CHR ''/'' case_folder) in
      case py_index parts 0 of
        Inl e \<Rightarrow> Inl e
      | Inr part0 \<Rightarrow>
         (case py_index (py_split CHR ''='' part0) 1 of
            Inl e \<Rightarrow> Inl e
          | Inr account_id \<Rightarrow>
             (case py_index parts 1 of
                Inl e \<Rightarrow> Inl e
              | Inr part1 \<Rightarrow>
                 (case py_index (py_split CHR ''='' part1) 1 of
                    Inl e \<Rightarrow> Inl e
                  | Inr case_id \<Rightarrow> Inr (account_id, case_id)))))"

definition should_skip_account :: "string \<Rightarrow> string list \<Rightarrow> bool" where
  "should_skip_account account_id excluded_accounts = (account_id \<in> set excluded_accounts)"

text \<open>The expression \<^verbatim>\<open>account_folder.split('=')[1].rstrip('/')\<close>.\<close>

definition account_id_of_folder :: "string \<Rightarrow> exn + string" where
  "account_id_of_folder account_folder =
     (case py_index (py_split CHR ''='' account_folder) 1 of
        Inl e \<Rightarrow> Inl e
      | Inr s \<Rightarrow> Inr (py_rstrip CHR ''/'' s))"

definition list_objects_in_case_folder ::
  "aws \<Rightarrow> string \<Rightarrow> string \<Rightarrow> call list \<Rightarrow> (exn + string list) \<times> call list" where
  "list_objects_in_case_folder env bucket case_folder calls =
     (list_contents env calls bucket case_folder, calls @ [ListContents bucket case_folder])"

subsection \<open>Deletion\<close>

text \<open>
  \<^verbatim>\<open>for i in range(0, len(objects), batch_size): batch = objects[i:i + batch_size]\<close>.
\<close>

definition batches :: "nat \<Rightarrow> 'a list \<Rightarrow> 'a list list" where
  "batches batch_size objects =
     map (\<lambda>j. take batch_size (drop (j * batch_size) objects))
       [0..<(length objects + batch_size - 1) div batch_size]"

text \<open>
  The loop over the batches: an exception of the call and a non-empty \<^verbatim>\<open>Errors\<close> list
  both return False at once.
\<close>

fun delete_batches :: "aws \<Rightarrow> string \<Rightarrow> string list list \<Rightarrow> call list \<Rightarrow> bool \<times> call list" where
  "delete_batches env bucket [] calls = (True, calls)"
| "delete_batches env bucket (batch # rest) calls =
     (case delete_objects env calls bucket batch of
        Inl e \<Rightarrow> (False, calls @ [DeleteObjects bucket batch])
      | Inr errs \<Rightarrow>
          if errs \<noteq> [] then (False, calls @ [DeleteObjects bucket batch])
          else delete_batches env bucket rest (calls @ [DeleteObjects bucket batch]))"

definition delete_objects_from_bucket ::
  "aws \<Rightarrow> string \<Rightarrow> string list \<Rightarrow> call list \<Rightarrow> bool \<times> call list" where
  "delete_objects_from_bucket env bucket objects calls =
     delete_batches env bucket (batches 1000 objects) calls"

text \<open>The whole body is inside \<^verbatim>\<open>try\<close>: every exception returns False.\<close>

definition delete_case_folder ::
  "aws \<Rightarrow> string \<Rightarrow> string \<Rightarrow> string \<Rightarrow> bool \<Rightarrow> call list \<Rightarrow> bool \<times> call list" where
  "delete_case_folder env raw_bucket processed_bucket case_folder dry_run calls =
     (case list_objects_in_case_folder env raw_bucket case_folder calls of
        (Inl e, calls1) \<Rightarrow> (False, calls1)
      | (Inr raw_objects, calls1) \<Rightarrow>
         (case list_objects_in_case_folder env processed_bucket case_folder calls1 of
            (Inl e, calls2) \<Rightarrow> (False, calls2)
          | (Inr processed_objects, calls2) \<Rightarrow>
             if length raw_objects + length processed_objects = 0 then (True, calls2)
             else
              (case get_case_info_from_folder case_folder of
                 Inl e \<Rightarrow> (False, calls2)
               | Inr info \<Rightarrow>
                  if dry_run then (True, calls2)
                  else
                   (case (if raw_objects \<noteq> []
                          then delete_objects_from_bucket env raw_bucket raw_objects calls2
                          else (True, calls2)) of
                      (False, calls3) \<Rightarrow> (False, calls3)
                    | (True, calls3) \<Rightarrow>
                       (case (if processed_objects \<noteq> []
                              then delete_objects_from_bucket env processed_bucket
                                     processed_objects calls3
                              else (True, calls3)) of
                          (False, calls4) \<Rightarrow> (False, calls4)
                        | (True, calls4) \<Rightarrow> (True, calls4))))))"

subsection \<open>Identifying the incomplete cases\<close>

text \<open>
  The inner loop over the case folders of one account. The list of incomplete cases is
  appended to in place, so what was appended before an exception stays.
\<close>

fun check_case_folders ::
  "aws \<Rightarrow> string \<Rightarrow> string list \<Rightarrow> string list \<Rightarrow> call list \<Rightarrow>
   (exn + unit) \<times> string list \<times> call list" where
  "check_case_folders env processed_bucket [] incomplete_cases calls =
     (Inr (), incomplete_cases, calls)"
| "check_case_folders env processed_bucket (case_folder # rest) incomplete_cases calls =
     (case check_case_completion env processed_bucket case_folder calls of
        (Inl e, calls1) \<Rightarrow> (Inl e, incomplete_cases, calls1)
      | (Inr is_complete, calls1) \<Rightarrow>
          if \<not> is_complete then
            (case get_case_info_from_folder case_folder of
               Inl e \<Rightarrow> (Inl e, incomplete_cases @ [case_folder], calls1)
             | Inr info \<Rightarrow>
                 check_case_folders env processed_bucket rest
                   (incomplete_cases @ [case_folder]) calls1)
          else check_case_folders env processed_bucket rest incomplete_cases calls1)"

text \<open>The body of the inner \<^verbatim>\<open>try\<close> for one account folder.\<close>

definition scan_account_folder ::
  "aws \<Rightarrow> string \<Rightarrow> string \<Rightarrow> string list \<Rightarrow> string \<Rightarrow> string list \<Rightarrow> call list \<Rightarrow>
   (exn + unit) \<times> string list \<times> call list" where
  "scan_account_folder env raw_bucket processed_bucket excluded_accounts account_folder
     incomplete_cases calls =
     (case account_id_of_folder account_folder of
        Inl e \<Rightarrow> (Inl e, incomplete_cases, calls)
      | Inr account_id \<Rightarrow>
          if should_skip_account account_id excluded_accounts
          then (Inr (), incomplete_cases, calls)
          else
           (case list_case_folders env raw_bucket account_folder calls of
              (Inl e, calls1) \<Rightarrow> (Inl e, incomplete_cases, calls1)
            | (Inr case_folders, calls1) \<Rightarrow>
                check_case_folders env processed_bucket case_folders incomplete_cases calls1))"

text \<open>
  The loop over the account folders: \<^verbatim>\<open>except Exception: ... continue\<close> goes on with
  the next account folder, as the end of the body does.
\<close>

fun scan_account_folders ::
  "aws \<Rightarrow> string \<Rightarrow> string \<Rightarrow> string list \<Rightarrow> string list \<Rightarrow> string list \<Rightarrow> call list \<Rightarrow>
   string list \<times> call list" where
  "scan_account_folders env raw_bucket processed_bucket excluded_accounts []
     incomplete_cases calls = (incomplete_cases, calls)"
| "scan_account_folders env raw_bucket processed_bucket excluded_accounts
     (account_folder # rest) incomplete_cases calls =
     (case scan_account_folder env raw_bucket processed_bucket excluded_accounts
             account_folder incomplete_cases calls of
        (Inl e, incomplete_cases1, calls1) \<Rightarrow>
          scan_account_folders env raw_bucket processed_bucket excluded_accounts rest
            incomplete_cases1 calls1
      | (Inr u, incomplete_cases1, calls1) \<Rightarrow>
          scan_account_folders env raw_bucket processed_bucket excluded_accounts rest
            incomplete_cases1 calls1)"

definition identify_incomplete_cases ::
  "aws \<Rightarrow> string \<Rightarrow> string \<Rightarrow> string list \<Rightarrow> call list \<Rightarrow>
   (exn + string list) \<times> call list" where
  "identify_incomplete_cases env raw_bucket processed_bucket excluded_accounts calls =
     (case list_account_folders env raw_bucket calls of
        (Inl e, calls1) \<Rightarrow> (Inl e, calls1)
      | (Inr account_folders, calls1) \<Rightarrow>
          (case scan_account_folders env raw_bucket processed_bucket excluded_accounts
                  account_folders [] calls1 of
             (incomplete_cases, calls2) \<Rightarrow> (Inr incomplete_cases, calls2)))"

subsection \<open>validate\_cleanup\_safety\<close>

text \<open>
  \<^verbatim>\<open>incomplete_cases.sort()\<close> sorts the caller's list in place; the caller does not
  read it again, so only the returned list is modelled.
\<close>

definition validate_cleanup_safety :: "string list \<Rightarrow> int \<Rightarrow> string list" where
  "validate_cleanup_safety incomplete_cases max_deletions =
     (if length incomplete_cases = 0 then []
      else if int (length incomplete_cases) > max_deletions
        then py_slice_to (sort incomplete_cases) max_deletions
      else incomplete_cases)"

subsection \<open>The batch, the metrics and the run\<close>

text \<open>
  \<open>delete_case_folder\<close> raises nothing, so the handler of \<open>perform_cleanup_batch\<close>
  is never entered.
\<close>

fun perform_cleanup_loop ::
  "aws \<Rightarrow> string \<Rightarrow> string \<Rightarrow> string list \<Rightarrow> bool \<Rightarrow> int \<Rightarrow> int \<Rightarrow> call list \<Rightarrow>
   (int \<times> int) \<times> call list" where
  "perform_cleanup_loop env raw_bucket processed_bucket [] dry_run successful failed calls =
     ((successful, failed), calls)"
| "perform_cleanup_loop env raw_bucket processed_bucket (case_folder # rest) dry_run
     successful failed calls =
     (case delete_case_folder env raw_bucket processed_bucket case_folder dry_run calls of
        (True, calls1) \<Rightarrow>
          perform_cleanup_loop env raw_bucket processed_bucket rest dry_run
            (successful + 1) failed calls1
      | (False, calls1) \<Rightarrow>
          perform_cleanup_loop env raw_bucket processed_bucket rest dry_run
            successful (failed + 1) calls1)"

definition perform_cleanup_batch ::
  "aws \<Rightarrow> string \<Rightarrow> string \<Rightarrow> string list \<Rightarrow> bool \<Rightarrow> call list \<Rightarrow>
   (int \<times> int) \<times> call list" where
  "perform_cleanup_batch env raw_bucket processed_bucket case_folders dry_run calls =
     perform_cleanup_loop env raw_bucket processed_bucket case_folders dry_run 0 0 calls"

text \<open>
  The metrics call is inside \<^verbatim>\<open>try\<close> with a handler that only logs: its response is
  not looked at. The timestamps of the data points are left out.
\<close>

definition publish_cloudwatch_metrics ::
  "aws \<Rightarrow> int \<Rightarrow> int \<Rightarrow> int \<Rightarrow> int \<Rightarrow> call list \<Rightarrow> call list" where
  "publish_cloudwatch_metrics env accounts_processed cases_scanned cases_removed errors calls =
     calls @ [PutMetricData ''CaseInsights/Cleanup''
              [(''AccountsProcessed'', accounts_processed),
               (''CasesScanned'', cases_scanned),
               (''CasesRemoved'', cases_removed),
               (''Errors'', errors)]]"

fun count_total_cases ::
  "aws \<Rightarrow> string \<Rightarrow> string list \<Rightarrow> string list \<Rightarrow> int \<Rightarrow> call list \<Rightarrow> int \<times> call list" where
  "count_total_cases env bucket [] excluded_accounts total_cases calls = (total_cases, calls)"
| "count_total_cases env bucket (account_folder # rest) excluded_accounts total_cases calls =
     (case account_id_of_folder account_folder of
        Inl e \<Rightarrow> count_total_cases env bucket rest excluded_accounts total_cases calls
      | Inr account_id \<Rightarrow>
          if should_skip_account account_id excluded_accounts
          then count_total_cases env bucket rest excluded_accounts total_cases calls
          else
           (case list_case_folders env bucket account_folder calls of
              (Inl e, calls1) \<Rightarrow>
                count_total_cases env bucket rest excluded_accounts total_cases calls1
            | (Inr case_folders, calls1) \<Rightarrow>
                count_total_cases env bucket rest excluded_accounts
                  (total_cases + int (length case_folders)) calls1))"

text \<open>
  The list comprehension that counts the account folders not excluded; it is not inside
  a per-account \<^verbatim>\<open>try\<close>, so an IndexError leaves it.
\<close>

fun count_accounts_processed :: "string list \<Rightarrow> string list \<Rightarrow> exn + int" where
  "count_accounts_processed [] excluded_accounts = Inr 0"
| "count_accounts_processed (af # rest) excluded_accounts =
     (case account_id_of_folder af of
        Inl e \<Rightarrow> Inl e
      | Inr account_id \<Rightarrow>
         (case count_accounts_processed rest excluded_accounts of
            Inl e \<Rightarrow> Inl e
          | Inr n \<Rightarrow> Inr (if \<not> should_skip_account account_id excluded_accounts
                           then n + 1 else n)))"

record config =
  raw_bucket_name :: string
  processed_bucket_name :: string
  dry_run :: bool
  max_deletions :: int
  excluded_accounts :: "string list"

datatype pyval = PInt int | PFloat real | PBool bool

text \<open>The four counters of a run, as they stand when the \<^verbatim>\<open>try\<close> block is left.\<close>

record counters =
  accounts_processed :: int
  cases_scanned :: int
  cases_removed :: int
  errors :: int

text \<open>
  How the \<^verbatim>\<open>try\<close> block of \<open>cleanup_incomplete_cases\<close> is left: by an exception
  (the handler has added one to \<open>errors\<close>), by the \<^verbatim>\<open>return\<close> inside it, or at its
  end.
\<close>

datatype try_exit = Raised exn | Returned "(string \<times> pyval) list" | Completed

definition cleanup_try ::
  "aws \<Rightarrow> config \<Rightarrow> call list \<Rightarrow> try_exit \<times> counters \<times> call list" where
  "cleanup_try env config calls =
     (case list_account_folders env (raw_bucket_name config) calls of
        (Inl e, calls1) \<Rightarrow>
          (Raised e,
           \<lparr>accounts_processed = 0, cases_scanned = 0, cases_removed = 0, errors = 0 + 1\<rparr>,
           calls1)
      | (Inr account_folders, calls1) \<Rightarrow>
          if account_folders = [] then
            (Returned [(''accounts_processed'', PInt 0), (''cases_scanned'', PInt 0),
                       (''cases_removed'', PInt 0), (''errors'', PInt 0),
                       (''duration_seconds'', PInt 0)],
             \<lparr>accounts_processed = 0, cases_scanned = 0, cases_removed = 0, errors = 0\<rparr>,
             calls1)
          else
           (case count_total_cases env (raw_bucket_name config) account_folders
                   (excluded_accounts config) 0 calls1 of
              (scanned, calls2) \<Rightarrow>
               (case count_accounts_processed account_folders (excluded_accounts config) of
                  Inl e \<Rightarrow>
                    (Raised e,
                     \<lparr>accounts_processed = 0, cases_scanned = scanned, cases_removed = 0,
                      errors = 0 + 1\<rparr>,
                     calls2)
                | Inr processed \<Rightarrow>
                   (case identify_incomplete_cases env (raw_bucket_name config)
                           (processed_bucket_name config) (excluded_accounts config) calls2 of
                      (Inl e, calls3) \<Rightarrow>
                        (Raised e,
                         \<lparr>accounts_processed = processed, cases_scanned = scanned,
                          cases_removed = 0, errors = 0 + 1\<rparr>,
                         calls3)
                    | (Inr incomplete_cases, calls3) \<Rightarrow>
                       (let cases_to_cleanup =
                              validate_cleanup_safety incomplete_cases (max_deletions config)
                        in if cases_to_cleanup \<noteq> [] then
                             (case perform_cleanup_batch env (raw_bucket_name config)
                                     (processed_bucket_name config) cases_to_cleanup
                                     (dry_run config) calls3 of
                                ((successful, failed), calls4) \<Rightarrow>
                                  (Completed,
                                   \<lparr>accounts_processed = processed, cases_scanned = scanned,
                                    cases_removed = successful, errors = failed\<rparr>,
                                   calls4))
                           else
                             (Completed,
                              \<lparr>accounts_processed = processed, cases_scanned = scanned,
                               cases_removed = 0, errors = 0\<rparr>,
                              calls3))))))"

text \<open>
  The \<^verbatim>\<open>finally\<close> block runs however the \<^verbatim>\<open>try\<close> block was left: it reads the clock
  and, unless in dry-run mode, publishes the metrics; then the exception goes on, the
  early \<^verbatim>\<open>return\<close> returns its dictionary, or the final \<^verbatim>\<open>return\<close> builds the result.
\<close>

definition cleanup_incomplete_cases ::
  "aws \<Rightarrow> config \<Rightarrow> call list \<Rightarrow> (exn + (string \<times> pyval) list) \<times> call list" where
  "cleanup_incomplete_cases env config calls =
     (let start_time = utcnow env calls in
      case cleanup_try env config calls of
        (exit, c, calls1) \<Rightarrow>
          (let duration = utcnow env calls1 - start_time;
               calls2 = (if \<not> dry_run config
                       then publish_cloudwatch_metrics env (accounts_processed c)
                              (cases_scanned c) (cases_removed c) (errors c) calls1
                       else calls1)
           in (case exit of
                 Raised e \<Rightarrow> Inl e
               | Returned d \<Rightarrow> Inr d
               | Completed \<Rightarrow>
                   Inr [(''accounts_processed'', PInt (accounts_processed c)),
                        (''cases_scanned'', PInt (cases_scanned c)),
                        (''cases_removed'', PInt (cases_removed c)),
                        (''errors'', PInt (errors c)),
                        (''duration_seconds'', PFloat duration),
                        (''dry_run'', PBool (dry_run config))],
               calls2)))"

subsection \<open>Configuration and the handler\<close>

text \<open>
  \<open>py_int\<close> is Python's \<^verbatim>\<open>int\<close> on a string, \<open>None\<close> where it raises ValueError.
  The dictionary is built before the two required names are checked, so a malformed
  \<^verbatim>\<open>MAX_DELETIONS_PER_RUN\<close> is reported first.
\<close>

definition get_configuration ::
  "(string \<Rightarrow> int option) \<Rightarrow> (string \<rightharpoonup> string) \<Rightarrow> exn + config" where
  "get_configuration py_int environ =
     (case py_int (environ_get environ ''MAX_DELETIONS_PER_RUN'' ''1000'') of
        None \<Rightarrow> Inl ValueError
      | Some max_del \<Rightarrow>
         (case environ ''CASE_RAW_BUCKET'' of
            None \<Rightarrow> Inl ValueError
          | Some raw \<Rightarrow>
             if raw = [] then Inl ValueError
             else
              (case environ ''CASE_PROCESSED_BUCKET'' of
                 None \<Rightarrow> Inl ValueError
               | Some processed \<Rightarrow>
                  if processed = [] then Inl ValueError
                  else Inr \<lparr>raw_bucket_name = raw,
                            processed_bucket_name = processed,
                            dry_run = (py_lower (environ_get environ ''DRY_RUN'' ''false'')
                                       = ''true''),
                            max_deletions = max_del,
                            excluded_accounts =
                              map py_strip_whitespace
                                (filter (\<lambda>account. py_strip_whitespace account \<noteq> [])
                                   (py_split CHR '',''
                                      (environ_get environ ''EXCLUDED_ACCOUNTS'' [])))\<rparr>)))"

text \<open>
  The response of the handler; the JSON text of the body is kept as the value it
  encodes. The event is only logged and is left out.
\<close>

datatype body =
    CompletedBody string "(string \<times> pyval) list"
  | FailedBody string exn

record response =
  statusCode :: int
  body :: body

definition lambda_handler ::
  "aws \<Rightarrow> (string \<Rightarrow> int option) \<Rightarrow> (string \<rightharpoonup> string) \<Rightarrow> call list \<Rightarrow>
   response \<times> call list" where
  "lambda_handler env py_int environ calls =
     (case get_configuration py_int environ of
        Inl e \<Rightarrow>
          (\<lparr>statusCode = 500, body = FailedBody ''Case cleanup failed'' e\<rparr>, calls)
      | Inr config \<Rightarrow>
         (case cleanup_incomplete_cases env config calls of
            (Inl e, calls1) \<Rightarrow>
              (\<lparr>statusCode = 500, body = FailedBody ''Case cleanup failed'' e\<rparr>, calls1)
          | (Inr results, calls1) \<Rightarrow>
              (\<lparr>statusCode = 200,
                body = CompletedBody ''Case cleanup completed successfully'' results\<rparr>,
               calls1)))"

section \<open>The shared utilities: src/lambda/common/utils.py\<close>

subsection \<open>exponential\_backoff and retry\_with\_backoff\<close>

text \<open>
  \<open>r\<close> is the value of \<^verbatim>\<open>random.random()\<close>, drawn only on the jitter path.
  \<^verbatim>\<open>2 ** attempt\<close> is an integer for an attempt number that is not negative, and
  \<^verbatim>\<open>base_delay * (2 ** attempt)\<close> converts it to a float: from \<open>2 ** 1024\<close> on that
  raises OverflowError. Below that bound the delay is computed in the reals (rounding
  is not modelled, and \<open>base_delay\<close> is a finite float); \<open>power_int 2 attempt\<close> is a
  fraction for a negative attempt number.
\<close>

definition exponential_backoff ::
  "int \<Rightarrow> int \<Rightarrow> real \<Rightarrow> bool \<Rightarrow> real \<Rightarrow> exn + real" where
  "exponential_backoff attempt max_attempts base_delay jitter r =
     (if attempt \<ge> max_attempts then Inr (- 1)
      else if attempt \<ge> 1024 then Inl OverflowError
      else (let delay = base_delay * power_int 2 attempt
            in Inr (if jitter then delay * (0.8 + 0.2 * r) else delay)))"

text \<open>
  What \<open>retry_with_backoff\<close> does to the outside, in order: an invocation of the
  wrapped operation with its outcome (\<open>Inl\<close> the exception it raised), and a
  \<^verbatim>\<open>time.sleep\<close> that returned, with its delay.
\<close>

datatype 'a retry_event = Invoked "exn + 'a" | Slept real

text \<open>
  \<^verbatim>\<open>raise last_exception\<close>: with \<^verbatim>\<open>None\<close> (the loop body never ran) Python
  raises a TypeError.
\<close>

definition raise_exception :: "exn option \<Rightarrow> exn + 'a" where
  "raise_exception last_exception =
     (case last_exception of None \<Rightarrow> Inl TypeError | Some e \<Rightarrow> Inl e)"

text \<open>
  The loop \<^verbatim>\<open>for attempt in range(max_attempts)\<close> over the attempts still to run.
  The wrapped operation \<open>func\<close> is any callable with effects: it takes the state of
  the world and returns its outcome and the new state. \<open>rnd attempt\<close> is the number
  \<^verbatim>\<open>random.random()\<close> returns in that attempt's call of \<open>exponential_backoff\<close>.
  \<open>time_sleep delay\<close> is what \<^verbatim>\<open>time.sleep\<close> does with the delay: \<open>None\<close> when it
  returns, the exception when it raises (an OverflowError for a delay beyond its
  range). The delay is computed and slept inside the \<^verbatim>\<open>except\<close> block, so an
  exception of either leaves \<open>retry_with_backoff\<close> at once. \<^verbatim>\<open>break\<close> leaves the
  loop for the \<^verbatim>\<open>raise\<close> after it.
\<close>

fun retry_loop ::
  "('s \<Rightarrow> (exn + 'a) \<times> 's) \<Rightarrow> (int \<Rightarrow> real) \<Rightarrow> (real \<Rightarrow> exn option) \<Rightarrow> int \<Rightarrow> real \<Rightarrow>
   int list \<Rightarrow> exn option \<Rightarrow> 's \<Rightarrow> 'a retry_event list \<Rightarrow>
   (exn + 'a) \<times> 's \<times> 'a retry_event list"
where
  "retry_loop func rnd time_sleep max_attempts base_delay [] last_exception s tr =
     (raise_exception last_exception, s, tr)"
| "retry_loop func rnd time_sleep max_attempts base_delay (attempt # rest) last_exception s tr =
     (case func s of
        (Inr v, s') \<Rightarrow> (Inr v, s', tr @ [Invoked (Inr v)])
      | (Inl e, s') \<Rightarrow>
         (case exponential_backoff attempt max_attempts base_delay True (rnd attempt) of
            Inl raised \<Rightarrow> (Inl raised, s', tr @ [Invoked (Inl e)])
          | Inr delay \<Rightarrow>
              if delay < 0
              then (raise_exception (Some e), s', tr @ [Invoked (Inl e)])
              else
               (case time_sleep delay of
                  Some raised \<Rightarrow> (Inl raised, s', tr @ [Invoked (Inl e)])
                | None \<Rightarrow>
                    retry_loop func rnd time_sleep max_attempts base_delay rest (Some e) s'
                      (tr @ [Invoked (Inl e), Slept delay]))))"

definition retry_with_backoff ::
  "('s \<Rightarrow> (exn + 'a) \<times> 's) \<Rightarrow> (int \<Rightarrow> real) \<Rightarrow> (real \<Rightarrow> exn option) \<Rightarrow> int \<Rightarrow> real \<Rightarrow>
   's \<Rightarrow> (exn + 'a) \<times> 's \<times> 'a retry_event list"
where
  "retry_with_backoff func rnd time_sleep max_attempts base_delay s =
     retry_loop func rnd time_sleep max_attempts base_delay [0..max_attempts - 1] None s []"

text \<open>The outcomes of the invocations of a trace, and the delays of its sleeps.\<close>

fun invocations :: "'a retry_event list \<Rightarrow> (exn + 'a) list" where
  "invocations [] = []"
| "invocations (Invoked r # es) = r # invocations es"
| "invocations (Slept d # es) = invocations es"

fun sleeps :: "'a retry_event list \<Rightarrow> real list" where
  "sleeps [] = []"
| "sleeps (Invoked r # es) = sleeps es"
| "sleeps (Slept d # es) = d # sleeps es"

text \<open>\<open>k\<close> successive invocations of \<open>func\<close> from state \<open>s\<close>: their outcomes, and the state after them.\<close>

fun run_func :: "('s \<Rightarrow> (exn + 'a) \<times> 's) \<Rightarrow> 's \<Rightarrow> nat \<Rightarrow> (exn + 'a) list \<times> 's" where
  "run_func func s 0 = ([], s)"
| "run_func func s (Suc k) =
     (case func s of (r, s') \<Rightarrow>
        (case run_func func s' k of (rs, s'') \<Rightarrow> (r # rs, s'')))"


subsection \<open>get\_existing\_cases\_batch (utils.py)\<close>

text \<open>
  The body of the loop for one key: the id it adds to the set, if any.
  \<^verbatim>\<open>key_parts[-2]\<close> is read only when there are two parts.
\<close>

definition existing_case_of_key :: "string \<Rightarrow> exn + string option" where
  "existing_case_of_key key =
     (if py_endswith key ''/data.json'' then
        (let key_parts = py_split CHR ''/'' key in
         if length key_parts \<ge> 2 then
           (let case_part = key_parts ! (length key_parts - 2) in
            if py_startswith case_part ''case_number='' then
              (case py_index (py_split CHR ''='' case_part) 1 of
                 Inl e \<Rightarrow> Inl e
               | Inr case_display_id \<Rightarrow> Inr (Some case_display_id))
            else Inr None)
         else Inr None)
      else Inr None)"

fun collect_existing_cases :: "string list \<Rightarrow> string set \<Rightarrow> exn + string set" where
  "collect_existing_cases [] existing_cases = Inr existing_cases"
| "collect_existing_cases (key # rest) existing_cases =
     (case existing_case_of_key key of
        Inl e \<Rightarrow> Inl e
      | Inr None \<Rightarrow> collect_existing_cases rest existing_cases
      | Inr (Some case_display_id) \<Rightarrow>
          collect_existing_cases rest (insert case_display_id existing_cases))"

text \<open>Every exception inside \<^verbatim>\<open>try\<close> falls back to the empty set.\<close>

definition get_existing_cases_batch ::
  "aws \<Rightarrow> string \<Rightarrow> string \<Rightarrow> call list \<Rightarrow> string set \<times> call list" where
  "get_existing_cases_batch env bucket account_folder calls =
     (case list_contents env calls bucket (account_folder @ ''/'') of
        Inl e \<Rightarrow> {}
      | Inr keys \<Rightarrow>
         (case collect_existing_cases keys {} of
            Inl e \<Rightarrow> {}
          | Inr existing_cases \<Rightarrow> existing_cases),
      calls @ [ListContents bucket (account_folder @ ''/'')])"

section \<open>Vocabulary of the properties\<close>

text \<open>
  The delay \<open>exponential_backoff\<close> gives to \<open>retry_with_backoff\<close> in an attempt
  below 1024, and the trace of attempts that all fail and are all slept after.
\<close>

definition jittered_delay :: "real \<Rightarrow> (int \<Rightarrow> real) \<Rightarrow> int \<Rightarrow> real" where
  "jittered_delay base_delay rnd attempt =
     base_delay * power_int 2 attempt * (0.8 + 0.2 * rnd attempt)"

fun failed_attempts ::
  "real \<Rightarrow> (int \<Rightarrow> real) \<Rightarrow> int list \<Rightarrow> (exn + 'a) list \<Rightarrow> 'a retry_event list" where
  "failed_attempts base_delay rnd (a # as) (r # rs) =
     Invoked r # Slept (jittered_delay base_delay rnd a) # failed_attempts base_delay rnd as rs"
| "failed_attempts base_delay rnd as rs = []"

text \<open>Delete calls and metric calls among the calls issued.\<close>

fun is_delete :: "call \<Rightarrow> bool" where
  "is_delete (DeleteObjects b batch) = True"
| "is_delete c = False"

text \<open>A bulk delete issued against the bucket \<open>bucket\<close>.\<close>

fun is_delete_on :: "string \<Rightarrow> call \<Rightarrow> bool" where
  "is_delete_on bucket (DeleteObjects b batch) = (b = bucket)"
| "is_delete_on bucket c = False"

fun is_metric :: "call \<Rightarrow> bool" where
  "is_metric (PutMetricData ns d) = True"
| "is_metric c = False"

text \<open>
  The call \<open>c\<close>, issued after the calls \<open>before\<close>, is a bulk delete that raised or
  whose response has a non-empty \<^verbatim>\<open>Errors\<close> list.
\<close>

fun delete_failed :: "aws \<Rightarrow> call list \<Rightarrow> call \<Rightarrow> bool" where
  "delete_failed env before (DeleteObjects b batch) =
     (delete_objects env before b batch \<noteq> Inr [])"
| "delete_failed env before c = False"

text \<open>Some call of \<open>new\<close>, issued in this order after \<open>before\<close>, is a failed delete.\<close>

fun failed_delete_in :: "aws \<Rightarrow> call list \<Rightarrow> call list \<Rightarrow> bool" where
  "failed_delete_in env before [] = False"
| "failed_delete_in env before (c # cs) =
     (delete_failed env before c \<or> failed_delete_in env (before @ [c]) cs)"

text \<open>
  The outcome of \<open>delete_case_folder\<close> for each case folder in turn, each run after
  the calls of the ones before it.
\<close>

fun case_outcomes ::
  "aws \<Rightarrow> string \<Rightarrow> string \<Rightarrow> string list \<Rightarrow> bool \<Rightarrow> call list \<Rightarrow> bool list \<times> call list" where
  "case_outcomes env rb pb [] dry calls = ([], calls)"
| "case_outcomes env rb pb (cf # rest) dry calls =
     (case delete_case_folder env rb pb cf dry calls of
        (ok, calls1) \<Rightarrow>
          (case case_outcomes env rb pb rest dry calls1 of
             (oks, calls2) \<Rightarrow> (ok # oks, calls2)))"

text \<open>A call that neither deletes nor publishes a metric.\<close>

definition is_read :: "call \<Rightarrow> bool" where
  "is_read c = (\<not> is_delete c \<and> \<not> is_metric c)"

text \<open>
  Dry run: a case folder counts as one that would be deleted when both its listings
  succeed and, unless both are empty, its path parses as account and case. The
  listings are the calls issued for it.
\<close>

definition would_be_deleted :: "aws \<Rightarrow> string \<Rightarrow> string \<Rightarrow> string \<Rightarrow> call list \<Rightarrow> bool" where
  "would_be_deleted env rb pb cf calls =
     (case list_contents env calls rb cf of
        Inl e \<Rightarrow> False
      | Inr ro \<Rightarrow>
         (case list_contents env (calls @ [ListContents rb cf]) pb cf of
            Inl e \<Rightarrow> False
          | Inr po \<Rightarrow> (ro = [] \<and> po = []) \<or> \<not> isl (get_case_info_from_folder cf)))"

definition listing_calls :: "aws \<Rightarrow> string \<Rightarrow> string \<Rightarrow> string \<Rightarrow> call list \<Rightarrow> call list" where
  "listing_calls env rb pb cf calls =
     (if isl (list_contents env calls rb cf) then [ListContents rb cf]
      else [ListContents rb cf, ListContents pb cf])"

fun count_would_be_deleted ::
  "aws \<Rightarrow> string \<Rightarrow> string \<Rightarrow> string list \<Rightarrow> call list \<Rightarrow> nat" where
  "count_would_be_deleted env rb pb [] calls = 0"
| "count_would_be_deleted env rb pb (cf # rest) calls =
     (if would_be_deleted env rb pb cf calls then 1 else 0)
     + count_would_be_deleted env rb pb rest (calls @ listing_calls env rb pb cf calls)"

section \<open>Concrete inputs for the examples\<close>

subsection \<open>Operations to retry\<close>

text \<open>
  An operation that fails twice and then succeeds, one that always fails (the state
  counts the invocations), and a fixed jitter draw.
\<close>

definition flaky_operation :: "nat \<Rightarrow> (exn + nat) \<times> nat" where
  "flaky_operation s =
     (if s < 2 then Inl (OtherException ''throttled'') else Inr (10 * s), Suc s)"

definition failing_operation :: "nat \<Rightarrow> (exn + nat) \<times> nat" where
  "failing_operation s = (Inl (OtherException ''down''), Suc s)"

definition mid_draw :: "int \<Rightarrow> real" where
  "mid_draw attempt = 1 / 2"

text \<open>A \<^verbatim>\<open>time.sleep\<close> that refuses a delay beyond \<open>2 ^ 63\<close> nanoseconds.\<close>

definition c_sleep :: "real \<Rightarrow> exn option" where
  "c_sleep delay = (if 9223372036 < delay then Some OverflowError else None)"

subsection \<open>A service given by tables\<close>

text \<open>
  Responses looked up by call in association lists: a listing not in the table is
  empty, a key not in the table is absent (404), a delete not in the table succeeds.
  The clock counts the calls.
\<close>

definition table_env ::
  "(call \<times> (exn + string list)) list \<Rightarrow> (call \<times> (exn + unit)) list \<Rightarrow>
   (call \<times> (exn + delete_error list)) list \<Rightarrow> aws" where
  "table_env listings heads deletes =
     \<lparr>list_common_prefixes = (\<lambda>calls b p.
        case map_of listings (ListCommonPrefixes b p) of None \<Rightarrow> Inr [] | Some r \<Rightarrow> r),
      list_contents = (\<lambda>calls b p.
        case map_of listings (ListContents b p) of None \<Rightarrow> Inr [] | Some r \<Rightarrow> r),
      head_object = (\<lambda>calls b k.
        case map_of heads (HeadObject b k) of
          None \<Rightarrow> Inl (ClientError ''404'') | Some r \<Rightarrow> r),
      delete_objects = (\<lambda>calls b ks.
        case map_of deletes (DeleteObjects b ks) of None \<Rightarrow> Inr [] | Some r \<Rightarrow> r),
      put_metric_data = (\<lambda>calls ns d. Inr ()),
      utcnow = (\<lambda>calls. real (length calls))\<rparr>"

definition demo_listings :: "(call \<times> (exn + string list)) list" where
  "demo_listings =
     [(ListCommonPrefixes ''raw'' ''account_number='',
         Inr [''account_number=111/'', ''account_number=222/'', ''account_number=333/'']),
      (ListCommonPrefixes ''raw'' ''account_number=111/'', Inl (OtherException ''SlowDown'')),
      (ListCommonPrefixes ''raw'' ''account_number=222/'',
         Inr [''account_number=222/case_number=1/'', ''account_number=222/case_number=2/'']),
      (ListCommonPrefixes ''raw'' ''account_number=333/'',
         Inr [''account_number=333/case_number=7/'']),
      (ListContents ''raw'' ''account_number=222/case_number=2/'',
         Inr [''account_number=222/case_number=2/data.json'']),
      (ListContents ''raw'' ''account_number=333/case_number=7/'',
         Inr [''account_number=333/case_number=7/data.json'']),
      (ListContents ''processed'' ''account_number=333/case_number=7/'',
         Inr [''account_number=333/case_number=7/annotation.json''])]"

definition demo_heads :: "(call \<times> (exn + unit)) list" where
  "demo_heads = [(HeadObject ''processed'' ''account_number=222/case_number=1/data.json'', Inr ())]"

definition demo_config :: config where
  "demo_config = \<lparr>raw_bucket_name = ''raw'', processed_bucket_name = ''processed'',
     dry_run = True, max_deletions = 10, excluded_accounts = []\<rparr>"

definition demo_env :: aws where
  "demo_env = table_env demo_listings demo_heads []"

definition demo_deletes :: "(call \<times> (exn + delete_error list)) list" where
  "demo_deletes =
     [(DeleteObjects ''raw'' [''account_number=333/case_number=7/data.json''],
       Inr [\<lparr>error_key = ''account_number=333/case_number=7/data.json'',
             error_code = ''AccessDenied'', error_message = ''Access Denied''\<rparr>])]"

definition denied_env :: aws where
  "denied_env = table_env demo_listings demo_heads demo_deletes"

text \<open>One bucket configured under both names, and a bulk delete that reports an error.\<close>

definition shared_listings :: "(call \<times> (exn + string list)) list" where
  "shared_listings =
     [(ListContents ''shared'' ''account_number=333/case_number=7/'',
         Inr [''account_number=333/case_number=7/data.json''])]"

definition shared_deletes :: "(call \<times> (exn + delete_error list)) list" where
  "shared_deletes =
     [(DeleteObjects ''shared'' [''account_number=333/case_number=7/data.json''],
       Inr [\<lparr>error_key = ''account_number=333/case_number=7/data.json'',
             error_code = ''AccessDenied'', error_message = ''Access Denied''\<rparr>])]"

definition shared_env :: aws where
  "shared_env = table_env shared_listings [] shared_deletes"

definition shared_environ :: "string \<rightharpoonup> string" where
  "shared_environ =
     [''CASE_RAW_BUCKET'' \<mapsto> ''shared'', ''CASE_PROCESSED_BUCKET'' \<mapsto> ''shared'',
      ''MAX_DELETIONS_PER_RUN'' \<mapsto> ''10'']"

definition odd_listings :: "(call \<times> (exn + string list)) list" where
  "odd_listings =
     [(ListCommonPrefixes ''raw'' ''account_number='', Inr [''account_number=444/'']),
      (ListCommonPrefixes ''raw'' ''account_number=444/'', Inr [''account_number=444/readme/'']),
      (ListContents ''raw'' ''account_number=444/readme/'',
         Inr [''account_number=444/readme/notes.txt''])]"

definition odd_env :: aws where
  "odd_env = table_env odd_listings [] []"

definition index_listings :: "(call \<times> (exn + string list)) list" where
  "index_listings =
     [(ListContents ''processed'' ''account_number=111/'', Inl (OtherException ''SlowDown'')),
      (ListContents ''processed'' ''account_number=222/'',
         Inr [''account_number=222/case_number=1/data.json'',
              ''account_number=222/case_number=1/annotation.json'',
              ''account_number=222/case_number=3/data.json''])]"

definition index_env :: aws where
  "index_env = table_env index_listings [] []"

definition empty_env :: aws where
  "empty_env = table_env [] [] []"

definition demo_py_int :: "string \<Rightarrow> int option" where
  "demo_py_int s = (if s = ''1000'' then Some 1000 else if s = ''10'' then Some 10 else None)"

definition demo_environ :: "string \<rightharpoonup> string" where
  "demo_environ =
     [''CASE_RAW_BUCKET'' \<mapsto> ''raw'', ''CASE_PROCESSED_BUCKET'' \<mapsto> ''processed'',
      ''DRY_RUN'' \<mapsto> ''true'', ''MAX_DELETIONS_PER_RUN'' \<mapsto> ''10'']"

section \<open>Properties\<close>

subsection \<open>The safety limit\<close>

lemma sorted_take_le_drop:
  fixes ys :: "'a::linorder list"
  assumes "sorted ys" "x \<in> set (take k ys)" "y \<in> set (drop k ys)"
  shows "x \<le> y"
proof -
  have "sorted (take k ys @ drop k ys)" using assms(1) by simp
  then show ?thesis using assms(2,3) unfolding sorted_append by blast
qed

text \<open>
  C1 (as amended): for a list of length \<open>L\<close> and a maximum \<open>M \<ge> 0\<close>,
  \<open>validate_cleanup_safety\<close> returns exactly \<open>min L M\<close> keys: the empty list when
  \<open>L = 0\<close>, the list itself when \<open>0 < L \<le> M\<close>, and when \<open>L > M\<close> the first \<open>M\<close> keys
  of the list sorted lexicographically, that is, a sorted sub-multiset of the list each
  of whose keys is at most every key left out.
\<close>

theorem validate_cleanup_safety_bounded:
  assumes "0 \<le> M"
  shows "int (length (validate_cleanup_safety xs M)) = min (int (length xs)) M
    \<and> (length xs = 0 \<longrightarrow> validate_cleanup_safety xs M = [])
    \<and> (0 < length xs \<and> int (length xs) \<le> M \<longrightarrow> validate_cleanup_safety xs M = xs)
    \<and> (int (length xs) > M \<longrightarrow>
         validate_cleanup_safety xs M = take (nat M) (sort xs)
         \<and> sorted (validate_cleanup_safety xs M)
         \<and> mset (validate_cleanup_safety xs M) \<subseteq># mset xs
         \<and> (\<forall>x \<in> set (validate_cleanup_safety xs M).
              \<forall>y \<in># mset xs - mset (validate_cleanup_safety xs M). x \<le> y))"
proof (intro conjI impI)
  show "int (length (validate_cleanup_safety xs M)) = min (int (length xs)) M"
    using assms by (auto simp: validate_cleanup_safety_def py_slice_to_def)
next
  assume "length xs = 0"
  then show "validate_cleanup_safety xs M = []"
    by (simp add: validate_cleanup_safety_def)
next
  assume "0 < length xs \<and> int (length xs) \<le> M"
  then show "validate_cleanup_safety xs M = xs"
    by (simp add: validate_cleanup_safety_def)
next
  assume big: "int (length xs) > M"
  then have ne: "length xs \<noteq> 0" using assms by auto
  show eq: "validate_cleanup_safety xs M = take (nat M) (sort xs)"
    using big ne assms by (simp add: validate_cleanup_safety_def py_slice_to_def)
  show "sorted (validate_cleanup_safety xs M)"
    unfolding eq by (simp add: sorted_wrt_take)
  have split: "mset xs = mset (take (nat M) (sort xs)) + mset (drop (nat M) (sort xs))"
    by (metis append_take_drop_id mset_append mset_sort)
  show "mset (validate_cleanup_safety xs M) \<subseteq># mset xs"
    unfolding eq using split by simp
  have rest: "mset xs - mset (take (nat M) (sort xs)) = mset (drop (nat M) (sort xs))"
    using split by simp
  show "\<forall>x \<in> set (validate_cleanup_safety xs M).
          \<forall>y \<in># mset xs - mset (validate_cleanup_safety xs M). x \<le> y"
    unfolding eq rest
    using sorted_take_le_drop [of "sort xs" _ "nat M"] by auto
qed

theorem validate_cleanup_safety_bounded_witness:
  "(0::int) \<le> 2
   \<and> validate_cleanup_safety [''b/'', ''a/'', ''c/''] 2 = [''a/'', ''b/'']
   \<and> int (length (validate_cleanup_safety [''b/'', ''a/'', ''c/''] 2)) = min 3 2
   \<and> validate_cleanup_safety [''b/'', ''a/''] 2 = [''b/'', ''a/'']
   \<and> validate_cleanup_safety [] 2 = []"
  using validate_cleanup_safety_bounded [of 2 "[''b/'', ''a/'', ''c/'']"]
    validate_cleanup_safety_bounded [of 2 "[''b/'', ''a/'']"]
    validate_cleanup_safety_bounded [of 2 "[]"]
  by (simp add: validate_cleanup_safety_def py_slice_to_def)

text \<open>
  With the maximum \<open>-1\<close> (\<^verbatim>\<open>MAX_DELETIONS_PER_RUN=-1\<close> parses to it) and three keys,
  the slice \<^verbatim>\<open>[:-1]\<close> keeps two keys, not \<open>min 3 (-1)\<close>.
\<close>

theorem validate_cleanup_safety_negative_max:
  "validate_cleanup_safety [''b/'', ''a/'', ''c/''] (- 1) = [''a/'', ''b/'']
   \<and> int (length (validate_cleanup_safety [''b/'', ''a/'', ''c/''] (- 1))) \<noteq> min 3 (- 1)"
  by (simp add: validate_cleanup_safety_def py_slice_to_def)

subsection \<open>Retry with backoff\<close>

lemma invocations_append: "invocations (xs @ ys) = invocations xs @ invocations ys"
  by (induction xs rule: invocations.induct) simp_all

lemma sleeps_append: "sleeps (xs @ ys) = sleeps xs @ sleeps ys"
  by (induction xs rule: sleeps.induct) simp_all

lemma invocations_failed_attempts:
  "length as = length rs \<Longrightarrow> invocations (failed_attempts b rnd as rs) = rs"
  by (induction as rs rule: list_induct2) simp_all

lemma sleeps_failed_attempts:
  "length as = length rs \<Longrightarrow>
   sleeps (failed_attempts b rnd as rs) = map (jittered_delay b rnd) as"
  by (induction as rs rule: list_induct2) simp_all

lemma failed_attempts_snoc:
  "length as = length rs \<Longrightarrow>
   failed_attempts b rnd (as @ [a]) (rs @ [r]) =
     failed_attempts b rnd as rs @ [Invoked r, Slept (jittered_delay b rnd a)]"
  by (induction as rs rule: list_induct2) simp_all

lemma length_run_func: "run_func func s k = (rs, s') \<Longrightarrow> length rs = k"
  by (induction k arbitrary: s rs) (auto split: prod.splits)

lemma run_func_Suc_snoc:
  "run_func func s (Suc k) = (rs, s') \<Longrightarrow>
   \<exists>rs1 s1 r. run_func func s k = (rs1, s1) \<and> func s1 = (r, s') \<and> rs = rs1 @ [r]"
proof (induction k arbitrary: s rs)
  case 0
  then show ?case by (auto split: prod.splits)
next
  case (Suc k)
  obtain r0 s0 where f: "func s = (r0, s0)" by (cases "func s")
  obtain rs0 where r0: "run_func func s0 (Suc k) = (rs0, s')" and rs: "rs = r0 # rs0"
    using Suc.prems f by (auto split: prod.splits)
  from Suc.IH [OF r0] obtain rs1 s1 r where
    "run_func func s0 k = (rs1, s1)" "func s1 = (r, s')" "rs0 = rs1 @ [r]"
    by blast
  then show ?case using f rs by (intro exI [of _ "r0 # rs1"] exI [of _ s1] exI [of _ r]) simp
qed

lemma jittered_delay_nonneg:
  "0 \<le> b \<Longrightarrow> \<forall>a. 0 \<le> rnd a \<Longrightarrow> 0 \<le> jittered_delay b rnd a"
  unfolding jittered_delay_def
  by (intro mult_nonneg_nonneg) (auto simp: add_nonneg_nonneg)

lemma exponential_backoff_in_range:
  "a < n \<Longrightarrow> a < 1024 \<Longrightarrow>
   exponential_backoff a n b True (rnd a) = Inr (jittered_delay b rnd a)"
  by (simp add: exponential_backoff_def jittered_delay_def)

text \<open>What holds of every run of the loop.\<close>

lemma retry_loop_trace:
  "retry_loop func rnd time_sleep n b as le s tr0 = (res, s', tr) \<Longrightarrow>
   \<exists>new. tr = tr0 @ new
     \<and> length (invocations new) \<le> length as
     \<and> run_func func s (length (invocations new)) = (invocations new, s')
     \<and> (\<forall>r \<in> set (butlast (invocations new)). isl r)
     \<and> (invocations new \<noteq> [] \<and> \<not> isl (last (invocations new)) \<longrightarrow>
          res = last (invocations new) \<and> last new = Invoked res)"
proof (induction as arbitrary: le s tr0)
  case Nil
  then show ?case by (intro exI [of _ "[]"]) auto
next
  case (Cons a as)
  obtain r s1 where f: "func s = (r, s1)" by (cases "func s")
  have stop: ?case if "s' = s1" "tr = tr0 @ [Invoked r]" "\<not> isl r \<longrightarrow> res = r"
    using that f by (intro exI [of _ "[Invoked r]"]) auto
  show ?case
  proof (cases r)
    case (Inr v)
    then show ?thesis using Cons.prems f by (intro stop) auto
  next
    case (Inl e)
    show ?thesis
    proof (cases "exponential_backoff a n b True (rnd a)")
      case raised: (Inl e')
      then show ?thesis using Cons.prems f Inl by (intro stop) auto
    next
      case delay: (Inr d)
      show ?thesis
      proof (cases "d < 0 \<or> time_sleep d \<noteq> None")
        case True
        then show ?thesis using Cons.prems f Inl delay
          by (intro stop) (auto split: option.splits if_splits)
      next
        case False
        then have "retry_loop func rnd time_sleep n b as (Some e) s1
                     (tr0 @ [Invoked (Inl e), Slept d]) = (res, s', tr)"
          using Cons.prems f Inl delay by auto
        from Cons.IH [OF this] obtain new where
          tr: "tr = (tr0 @ [Invoked (Inl e), Slept d]) @ new"
          and len: "length (invocations new) \<le> length as"
          and run: "run_func func s1 (length (invocations new)) = (invocations new, s')"
          and fails: "\<forall>r \<in> set (butlast (invocations new)). isl r"
          and lst: "invocations new \<noteq> [] \<and> \<not> isl (last (invocations new)) \<longrightarrow>
                      res = last (invocations new) \<and> last new = Invoked res"
          by blast
        let ?new = "[Invoked (Inl e), Slept d] @ new"
        have "tr = tr0 @ ?new" using tr by simp
        moreover have "length (invocations ?new) \<le> length (a # as)" using len by simp
        moreover have "run_func func s (length (invocations ?new)) = (invocations ?new, s')"
          using run f Inl by simp
        moreover have "\<forall>r \<in> set (butlast (invocations ?new)). isl r"
          using fails by simp
        moreover have "invocations ?new \<noteq> [] \<and> \<not> isl (last (invocations ?new)) \<longrightarrow>
                      res = last (invocations ?new) \<and> last ?new = Invoked res"
        proof (cases "invocations new = []")
          case True
          then show ?thesis by simp
        next
          case False
          then have "new \<noteq> []" by auto
          then show ?thesis using lst False by simp
        qed
        ultimately show ?thesis by blast
      qed
    qed
  qed
qed

text \<open>A prefix of attempts that all fail and are all slept after.\<close>

lemma retry_loop_failures:
  assumes "0 \<le> b" "\<forall>a. 0 \<le> rnd a"
  shows "\<forall>a \<in> set as. a < n \<and> a < 1024 \<and> time_sleep (jittered_delay b rnd a) = None \<Longrightarrow>
    run_func func s (length as) = (rs, s') \<Longrightarrow> \<forall>r \<in> set rs. isl r \<Longrightarrow>
    retry_loop func rnd time_sleep n b (as @ bs) le s acc =
      retry_loop func rnd time_sleep n b bs
        (if rs = [] then le else Some (projl (last rs))) s'
        (acc @ failed_attempts b rnd as rs)"
proof (induction as arbitrary: le s acc rs)
  case Nil
  then show ?case by auto
next
  case (Cons a as)
  obtain r s1 where f: "func s = (r, s1)" by (cases "func s")
  obtain rs1 where run1: "run_func func s1 (length as) = (rs1, s')" and rs: "rs = r # rs1"
    using Cons.prems(2) f by (auto split: prod.splits)
  obtain e where e: "r = Inl e" using Cons.prems(3) rs by (cases r) auto
  have d: "exponential_backoff a n b True (rnd a) = Inr (jittered_delay b rnd a)"
    using Cons.prems(1) by (intro exponential_backoff_in_range) auto
  have pos: "\<not> jittered_delay b rnd a < 0"
    using jittered_delay_nonneg [OF assms, of a] by simp
  have sl: "time_sleep (jittered_delay b rnd a) = None" using Cons.prems(1) by simp
  have step: "retry_loop func rnd time_sleep n b ((a # as) @ bs) le s acc =
      retry_loop func rnd time_sleep n b (as @ bs) (Some e) s1
        (acc @ [Invoked (Inl e), Slept (jittered_delay b rnd a)])"
    using f e d pos sl by simp
  have "retry_loop func rnd time_sleep n b (as @ bs) (Some e) s1
        (acc @ [Invoked (Inl e), Slept (jittered_delay b rnd a)]) =
      retry_loop func rnd time_sleep n b bs
        (if rs1 = [] then Some e else Some (projl (last rs1))) s'
        ((acc @ [Invoked (Inl e), Slept (jittered_delay b rnd a)])
           @ failed_attempts b rnd as rs1)"
    using Cons.IH [OF _ run1] Cons.prems(1,3) rs by simp
  then show ?case using step rs e by simp
qed


lemma retry_loop_deciding_attempt:
  assumes b: "0 \<le> b" "\<forall>a. 0 \<le> rnd a" and n: "n \<le> 1024"
    and sl: "\<forall>a \<in> set [0..n - 1]. time_sleep (jittered_delay b rnd a) = None"
    and run: "run_func func s (Suc k) = (rs, s_k)" and k: "int (Suc k) \<le> n"
    and fails: "\<forall>r \<in> set (butlast rs). isl r"
    and last: "\<not> isl (last rs) \<or> int (Suc k) = n"
  shows "\<exists>tr. retry_with_backoff func rnd time_sleep n b s = (last rs, s_k, tr)
    \<and> invocations tr = rs
    \<and> sleeps tr = map (jittered_delay b rnd) [0..int (length (filter isl rs)) - 1]"
proof -
  obtain rs1 s1 r where run1: "run_func func s k = (rs1, s1)"
    and f: "func s1 = (r, s_k)" and rs: "rs = rs1 @ [r]"
    using run_func_Suc_snoc [OF run] by blast
  have len1: "length rs1 = k" using length_run_func [OF run1] .
  have fails1: "\<forall>r \<in> set rs1. isl r" using fails rs by simp
  have split: "[0..n - 1] = [0..int k - 1] @ int k # [int k + 1..n - 1]"
    using k upto_split1 [of 0 "int k" "n - 1"] upto_rec1 [of "int k" "n - 1"] by simp
  have lenk: "length [0..int k - 1] = k" by simp
  have pre: "\<forall>a \<in> set [0..int k - 1].
      a < n \<and> a < 1024 \<and> time_sleep (jittered_delay b rnd a) = None"
    using sl k n by auto
  have run1': "run_func func s (length [0..int k - 1]) = (rs1, s1)"
    using run1 by (simp only: lenk)
  let ?le = "if rs1 = [] then None else Some (projl (List.last rs1))"
  let ?tr1 = "failed_attempts b rnd [0..int k - 1] rs1"
  have loop: "retry_with_backoff func rnd time_sleep n b s =
      retry_loop func rnd time_sleep n b (int k # [int k + 1..n - 1]) ?le s1 ?tr1"
    unfolding retry_with_backoff_def split
    using retry_loop_failures [where bs = "int k # [int k + 1..n - 1]" and le = None
        and acc = "[]", OF b pre run1' fails1]
    by simp
  have inv1: "invocations ?tr1 = rs1"
    by (rule invocations_failed_attempts) (simp add: len1 lenk)
  have sl1: "sleeps ?tr1 = map (jittered_delay b rnd) [0..int k - 1]"
    by (rule sleeps_failed_attempts) (simp add: len1 lenk)
  have filt1: "filter isl rs1 = rs1" using fails1 by (simp add: filter_id_conv)
  show ?thesis
  proof (cases r)
    case (Inr v)
    have "retry_with_backoff func rnd time_sleep n b s
        = (Inr v, s_k, ?tr1 @ [Invoked (Inr v)])"
      unfolding loop using f Inr by simp
    moreover have "invocations (?tr1 @ [Invoked (Inr v)]) = rs"
      using inv1 rs Inr by (simp add: invocations_append)
    moreover have "sleeps (?tr1 @ [Invoked (Inr v)])
        = map (jittered_delay b rnd) [0..int (length (filter isl rs)) - 1]"
      using sl1 rs Inr filt1 len1 by (simp add: sleeps_append)
    ultimately show ?thesis using rs Inr by simp
  next
    case (Inl e)
    then have kn: "int (Suc k) = n" using last rs by simp
    have d: "exponential_backoff (int k) n b True (rnd (int k))
        = Inr (jittered_delay b rnd (int k))"
      using kn n by (intro exponential_backoff_in_range) auto
    have pos: "\<not> jittered_delay b rnd (int k) < 0"
      using jittered_delay_nonneg [OF b, of "int k"] by simp
    have slk: "time_sleep (jittered_delay b rnd (int k)) = None"
      using sl kn by simp
    have rest: "[int k + 1..n - 1] = []" using kn by simp
    have "retry_with_backoff func rnd time_sleep n b s
        = (Inl e, s_k, ?tr1 @ [Invoked (Inl e), Slept (jittered_delay b rnd (int k))])"
      unfolding loop rest using f Inl d pos slk by (simp add: raise_exception_def)
    moreover have "invocations (?tr1 @ [Invoked (Inl e), Slept (jittered_delay b rnd (int k))])
        = rs"
      using inv1 rs Inl by (simp add: invocations_append)
    moreover have "sleeps (?tr1 @ [Invoked (Inl e), Slept (jittered_delay b rnd (int k))])
        = map (jittered_delay b rnd) [0..int (length (filter isl rs)) - 1]"
    proof -
      have "[0..int k] = [0..int k - 1] @ [int k]"
        using upto_rec2 [of 0 "int k"] by simp
      then show ?thesis using sl1 rs Inl filt1 len1 by (simp add: sleeps_append)
    qed
    ultimately show ?thesis using rs Inl by simp
  qed
qed

text \<open>More than 1024 attempts: the 1025th failure is followed by the overflow.\<close>

lemma retry_with_backoff_overflow:
  assumes "0 \<le> b" "\<forall>a. 0 \<le> rnd a" and "1024 < n"
    and "\<forall>a \<in> set [0..1023]. time_sleep (jittered_delay b rnd a) = None"
    and "run_func func s 1024 = (rs, s1)" and "\<forall>r \<in> set rs. isl r"
    and "func s1 = (Inl e, s2)"
  shows "retry_with_backoff func rnd time_sleep n b s =
      (Inl OverflowError, s2, failed_attempts b rnd [0..1023] rs @ [Invoked (Inl e)])"
proof -
  have split: "[0..n - 1] = [0..1023] @ 1024 # [1025..n - 1]"
    using assms(3) upto_split1 [of 0 1024 "n - 1"] upto_rec1 [of 1024 "n - 1"] by simp
  have len: "length [0..1023::int] = 1024" by simp
  have run: "run_func func s (length [0..1023::int]) = (rs, s1)"
    using assms(5) by (simp only: len)
  have pre: "\<forall>a \<in> set [0..1023].
      a < n \<and> a < 1024 \<and> time_sleep (jittered_delay b rnd a) = None"
    using assms(3,4) by auto
  have ov: "exponential_backoff 1024 n b True (rnd 1024) = Inl OverflowError"
    using assms(3) by (simp add: exponential_backoff_def)
  have "retry_with_backoff func rnd time_sleep n b s =
      retry_loop func rnd time_sleep n b (1024 # [1025..n - 1])
        (if rs = [] then None else Some (projl (last rs))) s1
        (failed_attempts b rnd [0..1023] rs)"
    unfolding retry_with_backoff_def split
    using retry_loop_failures [where bs = "1024 # [1025..n - 1]" and le = None
        and acc = "[]", OF assms(1,2) pre run assms(6)]
    by simp
  then show ?thesis using assms(7) ov by simp
qed

lemma upto_0_4: "[0..4::int] = [0,1,2,3,4]" by code_simp
lemma upto_0_1: "[0..1::int] = [0,1]" by code_simp
lemma upto_0_0: "[0..0::int] = [0]" by code_simp

lemma mid_draw_fun: "mid_draw = (\<lambda>a. 1 / 2)"
  by (rule ext) (simp add: mid_draw_def)

lemma replicate_1025: "replicate 1025 x = x # replicate 1024 x"
proof -
  have "(1025::nat) = Suc 1024" by simp
  then show ?thesis by (simp only: replicate_Suc)
qed

lemma mid_draw_nonneg: "\<forall>a. 0 \<le> mid_draw a"
  by (simp add: mid_draw_def)

lemma run_func_failing_operation:
  "run_func failing_operation s k = (replicate k (Inl (OtherException ''down'')), s + k)"
  by (induction k arbitrary: s) (simp_all add: failing_operation_def)

lemma failing_operation_overflow:
  "retry_with_backoff failing_operation mid_draw c_sleep 1025 0 0 =
     (Inl OverflowError, 1025,
      failed_attempts 0 mid_draw [0..1023] (replicate 1024 (Inl (OtherException ''down'')))
        @ [Invoked (Inl (OtherException ''down''))])"
proof -
  have sl: "\<forall>a \<in> set [0..1023]. c_sleep (jittered_delay 0 mid_draw a) = None"
    by (simp add: c_sleep_def jittered_delay_def)
  have run: "run_func failing_operation 0 1024 =
      (replicate 1024 (Inl (OtherException ''down'')), 1024)"
    using run_func_failing_operation [of 0 1024] by simp
  have fails: "\<forall>r \<in> set (replicate 1024 (Inl (OtherException ''down'') :: exn + nat)). isl r"
    by simp
  have f: "failing_operation 1024 = (Inl (OtherException ''down''), 1025)"
    by (simp add: failing_operation_def)
  show ?thesis
    by (rule retry_with_backoff_overflow [OF _ mid_draw_nonneg _ sl run fails f]) simp_all
qed

text \<open>
  C3 (as amended): \<open>retry_with_backoff\<close> with maximum attempt count \<open>n\<close> invokes
  the wrapped operation at most \<open>n\<close> times, and its invocations are the successive
  invocations of the operation; an invocation that succeeds is the last event of the
  run and its result is what is returned. When the backoff itself does not fail
  (\<open>base_delay \<ge> 0\<close>, \<open>n \<le> 1024\<close>, and \<^verbatim>\<open>time.sleep\<close> returns for the delay of
  every attempt), the operation decides the run: if its \<open>k\<close>-th invocation
  (\<open>k \<le> n\<close>) is the first that succeeds, that result is returned after exactly \<open>k\<close>
  invocations and \<open>k - 1\<close> sleeps, and if all \<open>n\<close> invocations fail, the exception of
  the \<open>n\<close>-th is raised to the caller after \<open>n\<close> invocations.
\<close>

theorem retry_with_backoff_attempts:
  assumes "retry_with_backoff func rnd time_sleep n base_delay s = (res, s', tr)"
  shows "length (invocations tr) \<le> nat n
    \<and> run_func func s (length (invocations tr)) = (invocations tr, s')
    \<and> (\<forall>i < length (invocations tr). \<not> isl (invocations tr ! i) \<longrightarrow>
          Suc i = length (invocations tr) \<and> res = invocations tr ! i \<and> last tr = Invoked res)
    \<and> (0 \<le> base_delay \<and> (\<forall>a. 0 \<le> rnd a) \<and> n \<le> 1024
        \<and> (\<forall>a \<in> set [0..n - 1]. time_sleep (jittered_delay base_delay rnd a) = None)
        \<and> run_func func s k = (rs, s_k) \<and> 0 < k \<and> int k \<le> n
        \<and> (\<forall>r \<in> set (butlast rs). isl r) \<and> (\<not> isl (last rs) \<or> int k = n)
        \<longrightarrow> res = last rs \<and> s' = s_k \<and> invocations tr = rs
          \<and> sleeps tr = map (jittered_delay base_delay rnd)
                           [0..int (length (filter isl rs)) - 1])"
proof -
  from retry_loop_trace [OF assms [unfolded retry_with_backoff_def]]
  obtain new where
    tr: "tr = new"
    and len: "length (invocations new) \<le> length [0..n - 1]"
    and run: "run_func func s (length (invocations new)) = (invocations new, s')"
    and fails: "\<forall>r \<in> set (butlast (invocations new)). isl r"
    and lst: "invocations new \<noteq> [] \<and> \<not> isl (last (invocations new)) \<longrightarrow>
                res = last (invocations new) \<and> last new = Invoked res"
    by auto
  have a: "length (invocations tr) \<le> nat n" using len tr by simp
  have b: "Suc i = length (invocations tr) \<and> res = invocations tr ! i \<and> last tr = Invoked res"
    if i: "i < length (invocations tr)" and ok: "\<not> isl (invocations tr ! i)" for i
  proof -
    have ne: "invocations tr \<noteq> []" using i by auto
    have "\<not> i < length (butlast (invocations tr))"
    proof
      assume "i < length (butlast (invocations tr))"
      then have "butlast (invocations tr) ! i \<in> set (butlast (invocations tr))"
        by (rule nth_mem)
      moreover have "butlast (invocations tr) ! i = invocations tr ! i"
        using \<open>i < length (butlast (invocations tr))\<close> by (simp add: nth_butlast)
      ultimately show False using fails ok tr by auto
    qed
    then have si: "Suc i = length (invocations tr)" using i by simp
    then have "invocations tr ! i = last (invocations tr)"
      using ne by (metis diff_Suc_1 last_conv_nth)
    then show ?thesis using si lst ok tr ne by simp
  qed
  have c: "res = last rs \<and> s' = s_k \<and> invocations tr = rs
          \<and> sleeps tr = map (jittered_delay base_delay rnd)
                           [0..int (length (filter isl rs)) - 1]"
    if h: "0 \<le> base_delay \<and> (\<forall>a. 0 \<le> rnd a) \<and> n \<le> 1024
        \<and> (\<forall>a \<in> set [0..n - 1]. time_sleep (jittered_delay base_delay rnd a) = None)
        \<and> run_func func s k = (rs, s_k) \<and> 0 < k \<and> int k \<le> n
        \<and> (\<forall>r \<in> set (butlast rs). isl r) \<and> (\<not> isl (last rs) \<or> int k = n)"
  proof -
    obtain k' where k': "k = Suc k'" using h by (cases k) auto
    have "\<exists>tr. retry_with_backoff func rnd time_sleep n base_delay s = (last rs, s_k, tr)
      \<and> invocations tr = rs
      \<and> sleeps tr = map (jittered_delay base_delay rnd)
                       [0..int (length (filter isl rs)) - 1]"
      using h unfolding k'
      by (intro retry_loop_deciding_attempt) blast+
    then show ?thesis using assms by auto
  qed
  show ?thesis using a run tr b c by blast
qed

theorem retry_with_backoff_attempts_witness:
  "retry_with_backoff flaky_operation mid_draw c_sleep 5 1 0 =
     (Inr 20, 3,
      [Invoked (Inl (OtherException ''throttled'')), Slept (9 / 10),
       Invoked (Inl (OtherException ''throttled'')), Slept (9 / 5),
       Invoked (Inr 20)])
   \<and> run_func flaky_operation 0 3 =
       ([Inl (OtherException ''throttled''), Inl (OtherException ''throttled''), Inr 20], 3)
   \<and> (5::int) \<le> 1024 \<and> (0::real) \<le> 1
   \<and> c_sleep (jittered_delay 1 mid_draw 0) = None
   \<and> c_sleep (jittered_delay 1 mid_draw 4) = None
   \<and> retry_with_backoff flaky_operation mid_draw c_sleep 2 1 0 =
     (Inl (OtherException ''throttled''), 2,
      [Invoked (Inl (OtherException ''throttled'')), Slept (9 / 10),
       Invoked (Inl (OtherException ''throttled'')), Slept (9 / 5)])
   \<and> run_func flaky_operation 0 2 =
       ([Inl (OtherException ''throttled''), Inl (OtherException ''throttled'')], 2)"
proof -
  let ?f = "Inl (OtherException ''throttled'') :: exn + nat"
  have a: "retry_with_backoff flaky_operation mid_draw c_sleep 5 1 0 =
     (Inr 20, 3, [Invoked ?f, Slept (9 / 10), Invoked ?f, Slept (9 / 5), Invoked (Inr 20)])"
    by (simp add: retry_with_backoff_def flaky_operation_def mid_draw_def c_sleep_def
        exponential_backoff_def raise_exception_def upto_0_4)
  have b: "retry_with_backoff flaky_operation mid_draw c_sleep 2 1 0 =
     (Inl (OtherException ''throttled''), 2,
      [Invoked ?f, Slept (9 / 10), Invoked ?f, Slept (9 / 5)])"
    by (simp add: retry_with_backoff_def flaky_operation_def mid_draw_def c_sleep_def
        exponential_backoff_def raise_exception_def upto_0_1)
  have r3: "run_func flaky_operation 0 3 = ([?f, ?f, Inr 20], 3)"
    by (simp add: flaky_operation_def numeral_3_eq_3)
  have r2: "run_func flaky_operation 0 2 = ([?f, ?f], 2)"
    by (simp add: flaky_operation_def numeral_2_eq_2)
  have s5: "\<forall>a \<in> set [0..5 - 1]. c_sleep (jittered_delay 1 mid_draw a) = None"
    by (simp add: upto_0_4 c_sleep_def jittered_delay_def mid_draw_def)
  have s2: "\<forall>a \<in> set [0..2 - 1]. c_sleep (jittered_delay 1 mid_draw a) = None"
    by (simp add: upto_0_1 c_sleep_def jittered_delay_def mid_draw_def)
  have h5: "0 \<le> (1::real) \<and> (\<forall>a. 0 \<le> mid_draw a) \<and> (5::int) \<le> 1024
        \<and> (\<forall>a \<in> set [0..5 - 1]. c_sleep (jittered_delay 1 mid_draw a) = None)
        \<and> run_func flaky_operation 0 3 = ([?f, ?f, Inr 20], 3) \<and> 0 < (3::nat) \<and> int 3 \<le> 5
        \<and> (\<forall>r \<in> set (butlast [?f, ?f, Inr 20]). isl r)
        \<and> (\<not> isl (last [?f, ?f, Inr 20]) \<or> int 3 = 5)"
    using mid_draw_nonneg s5 r3 by simp
  have h2: "0 \<le> (1::real) \<and> (\<forall>a. 0 \<le> mid_draw a) \<and> (2::int) \<le> 1024
        \<and> (\<forall>a \<in> set [0..2 - 1]. c_sleep (jittered_delay 1 mid_draw a) = None)
        \<and> run_func flaky_operation 0 2 = ([?f, ?f], 2) \<and> 0 < (2::nat) \<and> int 2 \<le> 2
        \<and> (\<forall>r \<in> set (butlast [?f, ?f]). isl r)
        \<and> (\<not> isl (last [?f, ?f]) \<or> int 2 = 2)"
    using mid_draw_nonneg s2 r2 by simp
  note t5 = retry_with_backoff_attempts [OF a, THEN conjunct2, THEN conjunct2, THEN conjunct2,
      rule_format, OF h5]
  note t2 = retry_with_backoff_attempts [OF b, THEN conjunct2, THEN conjunct2, THEN conjunct2,
      rule_format, OF h2]
  have c0: "c_sleep (jittered_delay 1 mid_draw 0) = None"
    and c4: "c_sleep (jittered_delay 1 mid_draw 4) = None"
    using s5 by (simp_all add: upto_0_4)
  show ?thesis using a b r3 r2 c0 c4 t5 t2 by simp
qed

text \<open>
  With 1025 attempts, no delay and an operation that always fails, all 1025
  invocations fail, and the caller gets the OverflowError of the delay computed for
  attempt 1024, not the exception of the last invocation.
\<close>

theorem retry_with_backoff_overflow_after_last_attempt:
  "run_func failing_operation 0 1025 = (replicate 1025 (Inl (OtherException ''down'')), 1025)
   \<and> fst (retry_with_backoff failing_operation mid_draw c_sleep 1025 0 0) = Inl OverflowError
   \<and> invocations (snd (snd (retry_with_backoff failing_operation mid_draw c_sleep 1025 0 0)))
       = replicate 1025 (Inl (OtherException ''down''))
   \<and> fst (retry_with_backoff failing_operation mid_draw c_sleep 1025 0 0)
       \<noteq> last (replicate 1025 (Inl (OtherException ''down'')))"
proof -
  have len: "length [0..1023::int] = length (replicate 1024 (Inl (OtherException ''down'') :: exn + nat))"
    by simp
  have "invocations (failed_attempts 0 mid_draw [0..1023]
            (replicate 1024 (Inl (OtherException ''down'') :: exn + nat))
          @ [Invoked (Inl (OtherException ''down''))])
      = replicate 1025 (Inl (OtherException ''down''))"
    unfolding invocations_append invocations_failed_attempts [OF len]
    by (simp add: replicate_append_same replicate_1025)
  then show ?thesis
    using run_func_failing_operation [of 0 1025]
    by (simp add: failing_operation_overflow)
qed

text \<open>
  C9 (as amended): with \<open>base_delay \<ge> 0\<close>, \<open>n \<le> 1024\<close> and a \<^verbatim>\<open>time.sleep\<close> that
  returns for the delay of every attempt, when every one of the \<open>n\<close> invocations
  fails, the run is an invocation and a sleep per attempt \<open>0, \<dots>, n - 1\<close>: exactly \<open>n\<close>
  sleeps, one after every failed attempt and so one after the last, each of a delay
  \<open>\<ge> 0\<close>; then the last exception is raised (for \<open>n \<le> 0\<close> nothing is invoked and
  \<^verbatim>\<open>raise None\<close> is a TypeError).
\<close>

theorem retry_with_backoff_sleeps:
  assumes "0 \<le> base_delay" and "\<forall>a. 0 \<le> rnd a" and "n \<le> 1024"
    and "\<forall>a \<in> set [0..n - 1]. time_sleep (jittered_delay base_delay rnd a) = None"
    and "run_func func s (nat n) = (rs, s_n)" and "\<forall>r \<in> set rs. isl r"
  shows "\<exists>tr. retry_with_backoff func rnd time_sleep n base_delay s =
                ((if rs = [] then Inl TypeError else last rs), s_n, tr)
    \<and> tr = failed_attempts base_delay rnd [0..n - 1] rs
    \<and> invocations tr = rs
    \<and> sleeps tr = map (jittered_delay base_delay rnd) [0..n - 1]
    \<and> length (sleeps tr) = nat n
    \<and> (\<forall>d \<in> set (sleeps tr). 0 \<le> d)"
proof -
  let ?tr = "failed_attempts base_delay rnd [0..n - 1] rs"
  have len: "length [0..n - 1] = nat n" by simp
  have lrs: "length [0..n - 1] = length rs"
    using length_run_func [OF assms(5)] by simp
  have run: "run_func func s (length [0..n - 1]) = (rs, s_n)"
    using assms(5) by (simp only: len)
  have pre: "\<forall>a \<in> set [0..n - 1].
      a < n \<and> a < 1024 \<and> time_sleep (jittered_delay base_delay rnd a) = None"
    using assms(3,4) by auto
  have last_rs: "Inl (projl (last rs)) = last rs" if "rs \<noteq> []"
    using that assms(6) by (metis last_in_set sum.collapse(1))
  have "retry_loop func rnd time_sleep n base_delay ([0..n - 1] @ []) None s [] =
      retry_loop func rnd time_sleep n base_delay []
        (if rs = [] then None else Some (projl (last rs))) s_n ([] @ ?tr)"
    by (rule retry_loop_failures [OF assms(1,2) pre run assms(6)])
  then have eq: "retry_with_backoff func rnd time_sleep n base_delay s =
      ((if rs = [] then Inl TypeError else last rs), s_n, ?tr)"
    using last_rs by (simp add: retry_with_backoff_def raise_exception_def)
  have inv: "invocations ?tr = rs" by (rule invocations_failed_attempts [OF lrs])
  have sl: "sleeps ?tr = map (jittered_delay base_delay rnd) [0..n - 1]"
    by (rule sleeps_failed_attempts [OF lrs])
  have "length (sleeps ?tr) = nat n" unfolding sl by simp
  moreover have "\<forall>d \<in> set (sleeps ?tr). 0 \<le> d"
    unfolding sl using jittered_delay_nonneg [OF assms(1,2)] by auto
  ultimately show ?thesis using eq inv sl by blast
qed

theorem retry_with_backoff_sleeps_witness:
  "(0::real) \<le> 1 \<and> (2::int) \<le> 1024
   \<and> c_sleep (jittered_delay 1 mid_draw 0) = None
   \<and> c_sleep (jittered_delay 1 mid_draw 1) = None
   \<and> run_func failing_operation 0 (nat 2) =
       ([Inl (OtherException ''down''), Inl (OtherException ''down'')], 2)
   \<and> retry_with_backoff failing_operation mid_draw c_sleep 2 1 0 =
       (Inl (OtherException ''down''), 2,
        [Invoked (Inl (OtherException ''down'')), Slept (9 / 10),
         Invoked (Inl (OtherException ''down'')), Slept (9 / 5)])"
proof -
  have run: "run_func failing_operation 0 (nat 2) =
       ([Inl (OtherException ''down''), Inl (OtherException ''down'')], 2)"
    by (simp add: failing_operation_def numeral_2_eq_2)
  have fails: "\<forall>r \<in> set [Inl (OtherException ''down'') :: exn + nat,
                  Inl (OtherException ''down'')]. isl r" by simp
  have base: "(0::real) \<le> 1" by simp
  have n: "(2::int) \<le> 1024" by simp
  have sl: "\<forall>a \<in> set [0..2 - 1]. c_sleep (jittered_delay 1 mid_draw a) = None"
    by (simp add: upto_0_1 c_sleep_def jittered_delay_def mid_draw_def)
  have c0: "c_sleep (jittered_delay 1 mid_draw 0) = None"
    and c1: "c_sleep (jittered_delay 1 mid_draw 1) = None"
    using sl by (simp_all add: upto_0_1)
  from retry_with_backoff_sleeps [OF base mid_draw_nonneg n sl run fails]
  have "retry_with_backoff failing_operation mid_draw c_sleep 2 1 0 =
       (Inl (OtherException ''down''), 2,
        [Invoked (Inl (OtherException ''down'')), Slept (9 / 10),
         Invoked (Inl (OtherException ''down'')), Slept (9 / 5)])"
    by (simp add: upto_0_1 jittered_delay_def mid_draw_fun)
  then show ?thesis using run base n c0 c1 by blast
qed

text \<open>
  Three runs in which every invocation fails and the sleeps are fewer than the
  attempts: with \<open>base_delay = -1\<close> and one attempt the delay is negative and the loop
  breaks without a sleep; with 1025 attempts and no delay there are 1024 sleeps before
  the OverflowError of attempt 1024; with a delay of \<open>10 ^ 11\<close> seconds
  \<^verbatim>\<open>time.sleep\<close> raises instead of sleeping.
\<close>

theorem retry_with_backoff_fewer_sleeps:
  "run_func failing_operation 0 1 = ([Inl (OtherException ''down'')], 1)
   \<and> retry_with_backoff failing_operation mid_draw c_sleep 1 (- 1) 0 =
       (Inl (OtherException ''down''), 1, [Invoked (Inl (OtherException ''down''))])
   \<and> exponential_backoff 0 1 (- 1) True (mid_draw 0) = Inr (- (9 / 10))
   \<and> length (sleeps (snd (snd (retry_with_backoff failing_operation mid_draw c_sleep 1 (- 1) 0))))
       = 0
   \<and> run_func failing_operation 0 1025 = (replicate 1025 (Inl (OtherException ''down'')), 1025)
   \<and> length (sleeps (snd (snd (retry_with_backoff failing_operation mid_draw c_sleep 1025 0 0))))
       = 1024
   \<and> retry_with_backoff failing_operation mid_draw c_sleep 1 100000000000 0 =
       (Inl OverflowError, 1, [Invoked (Inl (OtherException ''down''))])"
proof -
  have len: "length [0..1023::int] = length (replicate 1024 (Inl (OtherException ''down'') :: exn + nat))"
    by simp
  have a: "length (sleeps (snd (snd (retry_with_backoff failing_operation mid_draw c_sleep
        1025 0 0)))) = 1024"
    unfolding failing_operation_overflow snd_conv sleeps_append
      sleeps_failed_attempts [OF len]
    by simp
  have b: "run_func failing_operation 0 1025
      = (replicate 1025 (Inl (OtherException ''down'')), 1025)"
    using run_func_failing_operation [of 0 1025] by simp
  have c: "run_func failing_operation 0 1 = ([Inl (OtherException ''down'')], 1)
   \<and> retry_with_backoff failing_operation mid_draw c_sleep 1 (- 1) 0 =
       (Inl (OtherException ''down''), 1, [Invoked (Inl (OtherException ''down''))])
   \<and> exponential_backoff 0 1 (- 1) True (mid_draw 0) = Inr (- (9 / 10))
   \<and> length (sleeps (snd (snd (retry_with_backoff failing_operation mid_draw c_sleep 1 (- 1) 0))))
       = 0
   \<and> retry_with_backoff failing_operation mid_draw c_sleep 1 100000000000 0 =
       (Inl OverflowError, 1, [Invoked (Inl (OtherException ''down''))])"
    by (simp add: retry_with_backoff_def failing_operation_def mid_draw_def c_sleep_def
        exponential_backoff_def raise_exception_def upto_0_0)
  show ?thesis using a b c by blast
qed

subsection \<open>The completion check\<close>

text \<open>
  C6: \<open>check_case_completion\<close> issues one \<^verbatim>\<open>head_object\<close> for
  \<^verbatim>\<open>data.json\<close> under the case folder in the processed bucket and has exactly three
  outcomes: True when the call succeeds (the object exists), False when it fails with a
  ClientError of code 404, and for every other failure that exception, passed on.
\<close>

theorem check_case_completion_outcomes:
  "snd (check_case_completion env pb cf calls) = calls @ [HeadObject pb (cf @ ''data.json'')]
   \<and> (fst (check_case_completion env pb cf calls) = Inr True
        \<longleftrightarrow> head_object env calls pb (cf @ ''data.json'') = Inr ())
   \<and> (fst (check_case_completion env pb cf calls) = Inr False
        \<longleftrightarrow> head_object env calls pb (cf @ ''data.json'') = Inl (ClientError ''404''))
   \<and> (fst (check_case_completion env pb cf calls) = Inl e
        \<longleftrightarrow> head_object env calls pb (cf @ ''data.json'') = Inl e \<and> e \<noteq> ClientError ''404'')"
  by (auto simp: check_case_completion_def Let_def split: sum.splits exn.splits)

subsection \<open>Failures of one account\<close>

lemma check_case_folders_appends:
  "check_case_folders env pb cfs inc calls = (r, inc', calls') \<Longrightarrow>
   (\<exists>add. inc' = inc @ add) \<and> (\<exists>new. calls' = calls @ new)"
proof (induction cfs arbitrary: inc calls)
  case Nil
  then show ?case by simp
next
  case (Cons cf cfs)
  obtain c calls1 where chk: "check_case_completion env pb cf calls = (c, calls1)"
    by (cases "check_case_completion env pb cf calls")
  have c1: "calls1 = calls @ [HeadObject pb (cf @ ''data.json'')]"
    using chk by (simp add: check_case_completion_def Let_def)
  show ?case
  proof (cases c)
    case (Inl e)
    then show ?thesis using Cons.prems chk c1 by auto
  next
    case (Inr is_complete)
    show ?thesis
    proof (cases is_complete)
      case True
      then have "check_case_folders env pb cfs inc calls1 = (r, inc', calls')"
        using Cons.prems chk Inr by simp
      from Cons.IH [OF this] show ?thesis using c1 by auto
    next
      case False
      show ?thesis
      proof (cases "get_case_info_from_folder cf")
        case (Inl e)
        then show ?thesis using Cons.prems chk Inr False c1 by auto
      next
        case (Inr info)
        then have "check_case_folders env pb cfs (inc @ [cf]) calls1 = (r, inc', calls')"
          using Cons.prems chk \<open>c = Inr is_complete\<close> False by simp
        from Cons.IH [OF this] show ?thesis using c1 by auto
      qed
    qed
  qed
qed

lemma scan_account_folder_appends:
  "scan_account_folder env rb pb excl af inc calls = (r, inc', calls') \<Longrightarrow>
   (\<exists>add. inc' = inc @ add) \<and> (\<exists>new. calls' = calls @ new)"
  unfolding scan_account_folder_def list_case_folders_def
  by (auto split: sum.splits if_splits dest!: check_case_folders_appends)

lemma scan_account_folders_appends:
  "scan_account_folders env rb pb excl afs inc calls = (inc', calls') \<Longrightarrow>
   (\<exists>add. inc' = inc @ add) \<and> (\<exists>new. calls' = calls @ new)"
proof (induction afs arbitrary: inc calls)
  case Nil
  then show ?case by simp
next
  case (Cons af afs)
  obtain r inc1 calls1 where
    one: "scan_account_folder env rb pb excl af inc calls = (r, inc1, calls1)"
    by (cases "scan_account_folder env rb pb excl af inc calls")
  then have "scan_account_folders env rb pb excl afs inc1 calls1 = (inc', calls')"
    using Cons.prems by (cases r) simp_all
  from Cons.IH [OF this] scan_account_folder_appends [OF one]
  show ?case by auto
qed

lemma check_case_folders_healthy:
  assumes "\<forall>cf \<in> set cfs. \<forall>h. head_object env h pb (cf @ ''data.json'') =
             (if missing cf then Inl (ClientError ''404'') else Inr ())"
    and "\<forall>cf \<in> set cfs. missing cf \<longrightarrow> \<not> isl (get_case_info_from_folder cf)"
  shows "check_case_folders env pb cfs inc calls =
           (Inr (), inc @ filter missing cfs,
            calls @ map (\<lambda>cf. HeadObject pb (cf @ ''data.json'')) cfs)"
  using assms
proof (induction cfs arbitrary: inc calls)
  case Nil
  then show ?case by simp
next
  case (Cons cf cfs)
  have chk: "check_case_completion env pb cf calls =
      (Inr (\<not> missing cf), calls @ [HeadObject pb (cf @ ''data.json'')])"
    using Cons.prems(1) by (simp add: check_case_completion_def Let_def)
  have IH: "check_case_folders env pb cfs inc1 calls1 =
           (Inr (), inc1 @ filter missing cfs,
            calls1 @ map (\<lambda>cf. HeadObject pb (cf @ ''data.json'')) cfs)" for inc1 calls1
    using Cons.IH Cons.prems by simp
  show ?case
  proof (cases "missing cf")
    case True
    then obtain info where "get_case_info_from_folder cf = Inr info"
      using Cons.prems(2) by (cases "get_case_info_from_folder cf") auto
    then show ?thesis using chk True IH by simp
  next
    case False
    then show ?thesis using chk IH by simp
  qed
qed

lemma scan_account_folder_healthy:
  assumes "account_id_of_folder af = Inr acct" and "acct \<notin> set excl"
    and "\<forall>h. list_common_prefixes env h rb af = Inr cfs"
    and "\<forall>cf \<in> set cfs. \<forall>h. head_object env h pb (cf @ ''data.json'') =
             (if missing cf then Inl (ClientError ''404'') else Inr ())"
    and "\<forall>cf \<in> set cfs. missing cf \<longrightarrow> \<not> isl (get_case_info_from_folder cf)"
  shows "scan_account_folder env rb pb excl af inc calls =
           (Inr (), inc @ filter missing cfs,
            calls @ ListCommonPrefixes rb af
              # map (\<lambda>cf. HeadObject pb (cf @ ''data.json'')) cfs)"
  using assms(1-3) check_case_folders_healthy [OF assms(4,5)]
  by (simp add: scan_account_folder_def should_skip_account_def list_case_folders_def)

lemma scan_account_folders_healthy:
  assumes "account_id_of_folder af = Inr acct" and "acct \<notin> set excl"
    and "\<forall>h. list_common_prefixes env h rb af = Inr cfs"
    and "\<forall>cf \<in> set cfs. \<forall>h. head_object env h pb (cf @ ''data.json'') =
             (if missing cf then Inl (ClientError ''404'') else Inr ())"
    and "\<forall>cf \<in> set cfs. missing cf \<longrightarrow> \<not> isl (get_case_info_from_folder cf)"
  shows "af \<in> set afs \<Longrightarrow>
    scan_account_folders env rb pb excl afs inc calls = (inc', calls') \<Longrightarrow>
    ListCommonPrefixes rb af \<in> set calls' \<and> (\<forall>cf \<in> set cfs. missing cf \<longrightarrow> cf \<in> set inc')"
proof (induction afs arbitrary: inc calls)
  case Nil
  then show ?case by simp
next
  case (Cons a afs)
  obtain r inc1 calls1 where
    one: "scan_account_folder env rb pb excl a inc calls = (r, inc1, calls1)"
    by (cases "scan_account_folder env rb pb excl a inc calls")
  then have rest: "scan_account_folders env rb pb excl afs inc1 calls1 = (inc', calls')"
    using Cons.prems(2) by (cases r) simp_all
  show ?case
  proof (cases "a = af")
    case True
    have "inc1 = inc @ filter missing cfs"
      and "calls1 = calls @ ListCommonPrefixes rb af
              # map (\<lambda>cf. HeadObject pb (cf @ ''data.json'')) cfs"
      using one scan_account_folder_healthy [OF assms, of inc calls] True by simp_all
    moreover obtain add new where "inc' = inc1 @ add" "calls' = calls1 @ new"
      using scan_account_folders_appends [OF rest] by blast
    ultimately show ?thesis by auto
  next
    case False
    then have "af \<in> set afs" using Cons.prems(1) by simp
    from Cons.IH [OF this rest] show ?thesis .
  qed
qed

text \<open>
  C4: when the account folders were listed, \<open>identify_incomplete_cases\<close> returns a
  list, whatever fails inside the accounts. An account folder \<open>af\<close> of the listing that
  is not excluded and whose own calls do not fail (its case folders are listed, each
  completion check answers found or 404, and the incomplete folders parse) is scanned,
  and every case folder of it that lacks the marker is in the returned list, whether or
  not other account folders failed.
\<close>

theorem identify_incomplete_cases_isolates_failures:
  assumes "list_account_folders env rb calls = (Inr afs, calls1)"
    and "af \<in> set afs"
    and "account_id_of_folder af = Inr acct" and "acct \<notin> set excl"
    and "\<forall>h. list_common_prefixes env h rb af = Inr cfs"
    and "\<forall>cf \<in> set cfs. \<forall>h. head_object env h pb (cf @ ''data.json'') =
             (if missing cf then Inl (ClientError ''404'') else Inr ())"
    and "\<forall>cf \<in> set cfs. missing cf \<longrightarrow> \<not> isl (get_case_info_from_folder cf)"
  shows "\<exists>inc calls'. identify_incomplete_cases env rb pb excl calls = (Inr inc, calls')
    \<and> ListCommonPrefixes rb af \<in> set calls'
    \<and> (\<forall>cf \<in> set cfs. missing cf \<longrightarrow> cf \<in> set inc)"
proof -
  obtain inc calls' where
    scan: "scan_account_folders env rb pb excl afs [] calls1 = (inc, calls')"
    by (cases "scan_account_folders env rb pb excl afs [] calls1")
  have "identify_incomplete_cases env rb pb excl calls = (Inr inc, calls')"
    using assms(1) scan by (simp add: identify_incomplete_cases_def)
  then show ?thesis
    using scan_account_folders_healthy [OF assms(3-7) assms(2) scan] by blast
qed


theorem identify_incomplete_cases_isolates_failures_witness:
  "list_account_folders demo_env ''raw'' [] =
     (Inr [''account_number=111/'', ''account_number=222/'', ''account_number=333/''],
      [ListCommonPrefixes ''raw'' ''account_number=''])
   \<and> fst (scan_account_folder demo_env ''raw'' ''processed'' [] ''account_number=111/'' [] [])
       = Inl (OtherException ''SlowDown'')
   \<and> fst (identify_incomplete_cases demo_env ''raw'' ''processed'' [] []) =
       Inr [''account_number=222/case_number=2/'', ''account_number=333/case_number=7/'']
   \<and> ''account_number=222/case_number=2/''
       \<in> set (projr (fst (identify_incomplete_cases demo_env ''raw'' ''processed'' [] [])))"
proof -
  let ?cfs = "[''account_number=222/case_number=1/'', ''account_number=222/case_number=2/'']"
  let ?missing = "\<lambda>cf. cf = ''account_number=222/case_number=2/''"
  have h1: "list_account_folders demo_env ''raw'' [] =
     (Inr [''account_number=111/'', ''account_number=222/'', ''account_number=333/''],
      [ListCommonPrefixes ''raw'' ''account_number=''])"
    by (simp add: list_account_folders_def demo_env_def table_env_def demo_listings_def)
  have h2: "''account_number=222/''
      \<in> set [''account_number=111/'', ''account_number=222/'', ''account_number=333/'']"
    by simp
  have h3: "account_id_of_folder ''account_number=222/'' = Inr ''222''"
    by code_simp
  have h4: "''222'' \<notin> set []" by simp
  have h5: "\<forall>h. list_common_prefixes demo_env h ''raw'' ''account_number=222/'' = Inr ?cfs"
    by (simp add: demo_env_def table_env_def demo_listings_def)
  have h6: "\<forall>cf \<in> set ?cfs. \<forall>h. head_object demo_env h ''processed'' (cf @ ''data.json'') =
             (if ?missing cf then Inl (ClientError ''404'') else Inr ())"
    by (simp add: demo_env_def table_env_def demo_heads_def)
  have i2: "get_case_info_from_folder ''account_number=222/case_number=2/'' = Inr (''222'', ''2'')"
    by code_simp
  have h7: "\<forall>cf \<in> set ?cfs. ?missing cf \<longrightarrow> \<not> isl (get_case_info_from_folder cf)"
    using i2 by simp
  have a: "fst (scan_account_folder demo_env ''raw'' ''processed'' [] ''account_number=111/'' [] [])
       = Inl (OtherException ''SlowDown'')"
    unfolding demo_env_def by code_simp
  have r: "fst (identify_incomplete_cases demo_env ''raw'' ''processed'' [] []) =
       Inr [''account_number=222/case_number=2/'', ''account_number=333/case_number=7/'']"
    unfolding demo_env_def by code_simp
  from identify_incomplete_cases_isolates_failures [OF h1 h2 h3 h4 h5 h6 h7]
  obtain inc calls' where
    "identify_incomplete_cases demo_env ''raw'' ''processed'' [] [] = (Inr inc, calls')"
    and "''account_number=222/case_number=2/'' \<in> set inc"
    by auto
  then have "''account_number=222/case_number=2/''
       \<in> set (projr (fst (identify_incomplete_cases demo_env ''raw'' ''processed'' [] [])))"
    by simp
  then show ?thesis using h1 a r by blast
qed

subsection \<open>Deletion\<close>

lemma failed_delete_in_append:
  "failed_delete_in env before (xs @ ys) =
     (failed_delete_in env before xs \<or> failed_delete_in env (before @ xs) ys)"
  by (induction xs arbitrary: before) auto

lemma delete_batches_calls:
  "delete_batches env b bs calls = (ok, calls') \<Longrightarrow>
   \<exists>k \<le> length bs. calls' = calls @ map (DeleteObjects b) (take k bs)
     \<and> ok = (\<not> failed_delete_in env calls (map (DeleteObjects b) (take k bs)))"
proof (induction bs arbitrary: calls)
  case Nil
  then show ?case by auto
next
  case (Cons batch rest)
  show ?case
  proof (cases "delete_objects env calls b batch = Inr []")
    case True
    then have "delete_batches env b rest (calls @ [DeleteObjects b batch]) = (ok, calls')"
      using Cons.prems by simp
    from Cons.IH [OF this] obtain k where k: "k \<le> length rest"
      "calls' = (calls @ [DeleteObjects b batch]) @ map (DeleteObjects b) (take k rest)"
      "ok = (\<not> failed_delete_in env (calls @ [DeleteObjects b batch])
                (map (DeleteObjects b) (take k rest)))"
      by blast
    show ?thesis using k True
      by (intro exI [of _ "Suc k"]) simp
  next
    case False
    then have "ok = False" "calls' = calls @ [DeleteObjects b batch]"
      using Cons.prems by (auto split: sum.splits if_splits)
    then show ?thesis using False
      by (intro exI [of _ "Suc 0"]) simp
  qed
qed

lemma delete_objects_from_bucket_calls:
  assumes "delete_objects_from_bucket env b objects calls = (ok, calls')"
  shows "\<exists>ds. calls' = calls @ ds \<and> (\<forall>c \<in> set ds. \<exists>batch. c = DeleteObjects b batch)
     \<and> ok = (\<not> failed_delete_in env calls ds)"
proof -
  from delete_batches_calls [OF assms [unfolded delete_objects_from_bucket_def]]
  obtain k where "calls' = calls @ map (DeleteObjects b) (take k (batches 1000 objects))"
    "ok = (\<not> failed_delete_in env calls (map (DeleteObjects b) (take k (batches 1000 objects))))"
    by blast
  then show ?thesis
    by (intro exI [of _ "map (DeleteObjects b) (take k (batches 1000 objects))"]) auto
qed

text \<open>\<open>delete_case_folder\<close> with the calls it has issued written out.\<close>

lemma delete_case_folder_unfold:
  "delete_case_folder env rb pb cf dry calls =
     (case list_contents env calls rb cf of
        Inl e \<Rightarrow> (False, calls @ [ListContents rb cf])
      | Inr ro \<Rightarrow>
         (case list_contents env (calls @ [ListContents rb cf]) pb cf of
            Inl e \<Rightarrow> (False, calls @ [ListContents rb cf, ListContents pb cf])
          | Inr po \<Rightarrow>
             if ro = [] \<and> po = []
             then (True, calls @ [ListContents rb cf, ListContents pb cf])
             else if isl (get_case_info_from_folder cf)
             then (False, calls @ [ListContents rb cf, ListContents pb cf])
             else if dry then (True, calls @ [ListContents rb cf, ListContents pb cf])
             else if ro = [] then
               (if po = [] then (True, calls @ [ListContents rb cf, ListContents pb cf])
                else delete_objects_from_bucket env pb po
                       (calls @ [ListContents rb cf, ListContents pb cf]))
             else if \<not> fst (delete_objects_from_bucket env rb ro
                              (calls @ [ListContents rb cf, ListContents pb cf]))
             then (False, snd (delete_objects_from_bucket env rb ro
                              (calls @ [ListContents rb cf, ListContents pb cf])))
             else if po = []
             then (True, snd (delete_objects_from_bucket env rb ro
                              (calls @ [ListContents rb cf, ListContents pb cf])))
             else delete_objects_from_bucket env pb po
                    (snd (delete_objects_from_bucket env rb ro
                            (calls @ [ListContents rb cf, ListContents pb cf])))))"
  by (auto simp: delete_case_folder_def list_objects_in_case_folder_def
      split: sum.splits prod.splits bool.splits)



text \<open>The calls of \<open>delete_case_folder\<close> in live mode: listings, raw deletes, processed deletes.\<close>

lemma delete_case_folder_live_calls:
  assumes "delete_case_folder env rb pb cf False calls = (ok, calls')"
  shows "\<exists>ls rs ps. calls' = calls @ ls @ rs @ ps
      \<and> (\<forall>c \<in> set ls. \<not> is_delete c)
      \<and> (\<forall>c \<in> set rs. \<exists>batch. c = DeleteObjects rb batch)
      \<and> (\<forall>c \<in> set ps. \<exists>batch. c = DeleteObjects pb batch)
      \<and> (failed_delete_in env (calls @ ls) rs \<longrightarrow> \<not> ok \<and> ps = [])
      \<and> (failed_delete_in env (calls @ ls @ rs) ps \<longrightarrow> \<not> ok)"
proof -
  let ?l1 = "[ListContents rb cf]"
  let ?l2 = "[ListContents rb cf, ListContents pb cf]"
  note u = assms [unfolded delete_case_folder_unfold]
  have triv: "?thesis" if "calls' = calls @ ls" "\<forall>c \<in> set ls. \<not> is_delete c" for ls
    using that by (intro exI [of _ ls] exI [of _ "[]"]) simp
  have only_raw: "?thesis"
    if "calls' = (calls @ ?l2) @ rs" "\<forall>c \<in> set rs. \<exists>batch. c = DeleteObjects rb batch"
      "ok = (\<not> failed_delete_in env (calls @ ?l2) rs)" for rs
    using that by (intro exI [of _ ?l2] exI [of _ rs] exI [of _ "[]"]) simp
  have only_processed: "?thesis"
    if "calls' = (calls @ ?l2) @ ps" "\<forall>c \<in> set ps. \<exists>batch. c = DeleteObjects pb batch"
      "ok = (\<not> failed_delete_in env (calls @ ?l2) ps)" for ps
    using that by (intro exI [of _ ?l2] exI [of _ "[]"] exI [of _ ps]) simp
  show ?thesis
  proof (cases "list_contents env calls rb cf")
    case (Inl e)
    then have "calls' = calls @ ?l1" using u by simp
    then show ?thesis by (rule triv) simp
  next
    case ro: (Inr raw_objects)
    show ?thesis
    proof (cases "list_contents env (calls @ ?l1) pb cf")
      case (Inl e)
      then have "calls' = calls @ ?l2" using u ro by simp
      then show ?thesis by (rule triv) simp
    next
      case po: (Inr processed_objects)
      consider (stop) "(raw_objects = [] \<and> processed_objects = [])
                       \<or> isl (get_case_info_from_folder cf)"
        | (p) "raw_objects = []" "processed_objects \<noteq> []"
              "\<not> isl (get_case_info_from_folder cf)"
        | (r) "raw_objects \<noteq> []" "\<not> isl (get_case_info_from_folder cf)"
        by blast
      then show ?thesis
      proof cases
        case stop
        then have "calls' = calls @ ?l2" using u ro po by (auto split: if_splits)
        then show ?thesis by (rule triv) simp
      next
        case p
        then have "delete_objects_from_bucket env pb processed_objects (calls @ ?l2)
                     = (ok, calls')"
          using u ro po by simp
        from delete_objects_from_bucket_calls [OF this] obtain ps where
          "calls' = (calls @ ?l2) @ ps" "\<forall>c \<in> set ps. \<exists>batch. c = DeleteObjects pb batch"
          "ok = (\<not> failed_delete_in env (calls @ ?l2) ps)"
          by blast
        then show ?thesis by (rule only_processed)
      next
        case r
        obtain ok1 calls1 where r1:
          "delete_objects_from_bucket env rb raw_objects (calls @ ?l2) = (ok1, calls1)"
          by (cases "delete_objects_from_bucket env rb raw_objects (calls @ ?l2)")
        from delete_objects_from_bucket_calls [OF r1] obtain rs where rs:
          "calls1 = (calls @ ?l2) @ rs" "\<forall>c \<in> set rs. \<exists>batch. c = DeleteObjects rb batch"
          "ok1 = (\<not> failed_delete_in env (calls @ ?l2) rs)"
          by blast
        show ?thesis
        proof (cases "ok1 \<and> processed_objects \<noteq> []")
          case False
          then have "ok = ok1" "calls' = calls1"
            using u ro po r r1 by (auto split: if_splits)
          then show ?thesis using rs by (intro only_raw [of rs]) simp_all
        next
          case True
          then have "delete_objects_from_bucket env pb processed_objects calls1 = (ok, calls')"
            using u ro po r r1 by simp
          from delete_objects_from_bucket_calls [OF this] obtain ps where ps:
            "calls' = calls1 @ ps" "\<forall>c \<in> set ps. \<exists>batch. c = DeleteObjects pb batch"
            "ok = (\<not> failed_delete_in env calls1 ps)"
            by blast
          show ?thesis using rs ps True
            by (intro exI [of _ ?l2] exI [of _ rs] exI [of _ ps]) simp
        qed
      qed
    qed
  qed
qed


text \<open>The batches are consecutive slices: together they are the whole list.\<close>

lemma concat_batches_take:
  "concat (map (\<lambda>j. take n (drop (j * n) xs)) [0..<m]) = take (m * n) xs"
proof (induction m)
  case 0
  then show ?case by simp
next
  case (Suc m)
  have "take (m * n) xs @ take n (drop (m * n) xs) = take (m * n + n) xs"
    by (simp add: take_add)
  then show ?case using Suc by (simp add: add.commute)
qed

lemma concat_batches: "0 < n \<Longrightarrow> concat (batches n xs) = xs"
proof -
  assume n: "0 < n"
  let ?m = "(length xs + n - 1) div n"
  have "?m * n + (length xs + n - 1) mod n = length xs + n - 1" by simp
  moreover have "(length xs + n - 1) mod n < n" using n by simp
  ultimately have "length xs \<le> ?m * n" by linarith
  then show ?thesis unfolding batches_def concat_batches_take by simp
qed


lemma delete_batches_exact:
  "delete_batches env b bs calls = (ok, calls') \<Longrightarrow>
   \<exists>k. calls' = calls @ map (DeleteObjects b) (take k bs)
     \<and> ok = (\<not> failed_delete_in env calls (map (DeleteObjects b) (take k bs)))
     \<and> (ok \<longrightarrow> take k bs = bs)"
proof (induction bs arbitrary: calls)
  case Nil
  then show ?case by simp
next
  case (Cons batch rest)
  show ?case
  proof (cases "delete_objects env calls b batch = Inr []")
    case True
    then have "delete_batches env b rest (calls @ [DeleteObjects b batch]) = (ok, calls')"
      using Cons.prems by simp
    from Cons.IH [OF this] obtain k where k:
      "calls' = (calls @ [DeleteObjects b batch]) @ map (DeleteObjects b) (take k rest)"
      "ok = (\<not> failed_delete_in env (calls @ [DeleteObjects b batch])
                (map (DeleteObjects b) (take k rest)))"
      "ok \<longrightarrow> take k rest = rest"
      by blast
    have "calls' = calls @ map (DeleteObjects b) (take (Suc k) (batch # rest))"
      using k(1) by simp
    moreover have "ok = (\<not> failed_delete_in env calls
        (map (DeleteObjects b) (take (Suc k) (batch # rest))))"
      using k(2) True by simp
    moreover have "ok \<longrightarrow> take (Suc k) (batch # rest) = batch # rest"
      using k(3) by simp
    ultimately show ?thesis by (intro exI [of _ "Suc k"] conjI)
  next
    case False
    then have "ok = False" "calls' = calls @ [DeleteObjects b batch]"
      using Cons.prems by (auto split: sum.splits if_splits)
    then show ?thesis using False
      by (intro exI [of _ "Suc 0"]) simp
  qed
qed


lemma batches_Nil: "batches 1000 [] = []"
  by (simp add: batches_def)

lemma delete_objects_from_bucket_batches:
  assumes "delete_objects_from_bucket env b objects calls = (ok, calls')"
  shows "\<exists>bs. (\<exists>k. bs = take k (batches 1000 objects))
     \<and> calls' = calls @ map (DeleteObjects b) bs
     \<and> ok = (\<not> failed_delete_in env calls (map (DeleteObjects b) bs))
     \<and> (ok \<longrightarrow> bs = batches 1000 objects)"
proof -
  from delete_batches_exact [OF assms [unfolded delete_objects_from_bucket_def]]
  obtain k where k:
    "calls' = calls @ map (DeleteObjects b) (take k (batches 1000 objects))"
    "ok = (\<not> failed_delete_in env calls (map (DeleteObjects b) (take k (batches 1000 objects))))"
    "ok \<longrightarrow> take k (batches 1000 objects) = batches 1000 objects"
    by blast
  have "\<exists>j. take k (batches 1000 objects) = take j (batches 1000 objects)"
    by (rule exI [of _ k]) (rule refl)
  then show ?thesis
    using k by (intro exI [of _ "take k (batches 1000 objects)"] conjI)
qed


lemma not_delete_on_other_bucket:
  "rb \<noteq> pb \<Longrightarrow> \<forall>c \<in> set (map (DeleteObjects rb) rs). \<not> is_delete_on pb c"
  by simp

lemma delete_phase:
  assumes r: "(if objects = [] then (True, calls) else delete_objects_from_bucket env b objects calls)
      = (ok, calls')"
  shows "\<exists>bs. (\<exists>k. bs = take k (batches 1000 objects))
     \<and> calls' = calls @ map (DeleteObjects b) bs
     \<and> ok = (\<not> failed_delete_in env calls (map (DeleteObjects b) bs))
     \<and> (ok \<longrightarrow> bs = batches 1000 objects)"
proof (cases "objects = []")
  case True
  then have "ok" "calls' = calls" using r by simp_all
  moreover have "\<exists>k. [] = take k (batches 1000 objects)"
    by (rule exI [of _ 0]) simp
  moreover have "[] = batches 1000 objects" using True by (simp add: batches_Nil)
  ultimately show ?thesis
    by (intro exI [of _ "[]"]) simp
next
  case False
  then have "delete_objects_from_bucket env b objects calls = (ok, calls')" using r by simp
  from delete_objects_from_bucket_batches [OF this] show ?thesis .
qed

lemma delete_case_folder_phases:
  assumes ro: "list_contents env calls rb cf = Inr ro"
    and po: "list_contents env (calls @ [ListContents rb cf]) pb cf = Inr po"
    and ne: "ro \<noteq> [] \<or> po \<noteq> []"
    and parse: "\<not> isl (get_case_info_from_folder cf)"
    and r1: "(if ro = [] then (True, calls @ [ListContents rb cf, ListContents pb cf])
              else delete_objects_from_bucket env rb ro
                     (calls @ [ListContents rb cf, ListContents pb cf])) = (ok1, c3)"
    and r2: "(if po = [] then (True, c3)
              else delete_objects_from_bucket env pb po c3) = (ok2, c4)"
  shows "delete_case_folder env rb pb cf False calls = (if ok1 then (ok2, c4) else (False, c3))"
proof (cases "ro = []")
  case True
  then have "po \<noteq> []" using ne by simp
  then show ?thesis
    unfolding delete_case_folder_unfold ro po sum.case
    using True parse r1 r2 by auto
next
  case False
  then have d: "delete_objects_from_bucket env rb ro
      (calls @ [ListContents rb cf, ListContents pb cf]) = (ok1, c3)"
    using r1 by simp
  show ?thesis
    unfolding delete_case_folder_unfold ro po sum.case d fst_conv snd_conv
    using False parse r2 by (cases "po = []") auto
qed

text \<open>
  C10 (as amended): take a live run of \<open>delete_case_folder\<close> that reaches the deletion
  phase: both listings succeed, with the keys \<open>ro\<close> of the raw bucket and \<open>po\<close> of the
  processed bucket, not both empty, and the folder path parses. Its calls are the two
  listings, then bulk deletes of batches of \<open>ro\<close> on the raw bucket, then bulk deletes of
  batches of \<open>po\<close> on the processed bucket, the batches taken in order from the front.
  When a raw delete fails (it raises, or its response lists errors), the result is
  False and no processed delete follows; if moreover the two bucket names differ, no
  delete call at all is issued against the processed bucket. When no raw delete fails,
  every raw batch has been deleted, together all the keys of \<open>ro\<close>, before the first
  processed delete; the result is True exactly when no processed delete fails, and then
  every processed batch has been deleted, together all the keys of \<open>po\<close>.
\<close>

theorem delete_case_folder_raw_before_processed:
  assumes ro: "list_contents env calls rb cf = Inr ro"
    and po: "list_contents env (calls @ [ListContents rb cf]) pb cf = Inr po"
    and ne: "ro \<noteq> [] \<or> po \<noteq> []"
    and parse: "\<not> isl (get_case_info_from_folder cf)"
    and run: "delete_case_folder env rb pb cf False calls = (ok, calls')"
  shows "\<exists>rs ps.
      calls' = calls @ [ListContents rb cf, ListContents pb cf]
                 @ map (DeleteObjects rb) rs @ map (DeleteObjects pb) ps
      \<and> (\<exists>k. rs = take k (batches 1000 ro)) \<and> (\<exists>m. ps = take m (batches 1000 po))
      \<and> (if failed_delete_in env (calls @ [ListContents rb cf, ListContents pb cf])
               (map (DeleteObjects rb) rs)
         then \<not> ok \<and> ps = []
           \<and> (rb \<noteq> pb \<longrightarrow> \<not> list_ex (is_delete_on pb) (drop (length calls) calls'))
         else rs = batches 1000 ro \<and> concat rs = ro
           \<and> ok = (\<not> failed_delete_in env
                       (calls @ [ListContents rb cf, ListContents pb cf]
                          @ map (DeleteObjects rb) rs)
                       (map (DeleteObjects pb) ps))
           \<and> (ok \<longrightarrow> ps = batches 1000 po \<and> concat ps = po))"
proof -
  let ?c2 = "calls @ [ListContents rb cf, ListContents pb cf]"
  obtain ok1 c3 where r1:
    "(if ro = [] then (True, ?c2) else delete_objects_from_bucket env rb ro ?c2) = (ok1, c3)"
    by (cases "if ro = [] then (True, ?c2) else delete_objects_from_bucket env rb ro ?c2")
  obtain ok2 c4 where r2:
    "(if po = [] then (True, c3) else delete_objects_from_bucket env pb po c3) = (ok2, c4)"
    by (cases "if po = [] then (True, c3) else delete_objects_from_bucket env pb po c3")
  from delete_phase [OF r1] obtain rs where rs:
    "\<exists>k. rs = take k (batches 1000 ro)"
    "c3 = ?c2 @ map (DeleteObjects rb) rs"
    "ok1 = (\<not> failed_delete_in env ?c2 (map (DeleteObjects rb) rs))"
    "ok1 \<longrightarrow> rs = batches 1000 ro"
    by blast
  from delete_phase [OF r2] obtain ps where ps:
    "\<exists>m. ps = take m (batches 1000 po)"
    "c4 = c3 @ map (DeleteObjects pb) ps"
    "ok2 = (\<not> failed_delete_in env c3 (map (DeleteObjects pb) ps))"
    "ok2 \<longrightarrow> ps = batches 1000 po"
    by blast
  have res: "(ok, calls') = (if ok1 then (ok2, c4) else (False, c3))"
    using delete_case_folder_phases [OF ro po ne parse r1 r2] run by simp
  have cb: "concat (batches 1000 ro) = ro" "concat (batches 1000 po) = po"
    by (simp_all add: concat_batches)
  show ?thesis
  proof (cases ok1)
    case False
    then have o: "\<not> ok" and c: "calls' = ?c2 @ map (DeleteObjects rb) rs @ map (DeleteObjects pb) []"
      using res rs(2) by simp_all
    have f: "failed_delete_in env ?c2 (map (DeleteObjects rb) rs)"
      using rs(3) False by simp
    have e: "\<exists>m. [] = take m (batches 1000 po)"
      by (rule exI [of _ 0]) simp
    have d: "rb \<noteq> pb \<longrightarrow> \<not> list_ex (is_delete_on pb) (drop (length calls) calls')"
      using c by (simp add: list_ex_iff)
    show ?thesis
      apply (rule exI [of _ rs], rule exI [of _ "[]"])
      using c rs(1) e f o d by simp
  next
    case True
    then have o: "ok = ok2" and c: "calls' = ?c2 @ map (DeleteObjects rb) rs @ map (DeleteObjects pb) ps"
      using res rs(2) ps(2) by simp_all
    have f: "\<not> failed_delete_in env ?c2 (map (DeleteObjects rb) rs)"
      using rs(3) True by simp
    have a: "rs = batches 1000 ro" using rs(4) True by simp
    then have a': "concat rs = ro" using cb(1) by simp
    have p: "ok = (\<not> failed_delete_in env (?c2 @ map (DeleteObjects rb) rs)
        (map (DeleteObjects pb) ps))"
      using o ps(3) rs(2) by simp
    have q: "ok \<longrightarrow> ps = batches 1000 po \<and> concat ps = po"
      using o ps(4) cb(2) by simp
    show ?thesis
      apply (rule exI [of _ rs], rule exI [of _ ps])
      using c rs(1) ps(1) f a a' p q by simp
  qed
qed

theorem delete_case_folder_raw_before_processed_witness:
  "(list_contents demo_env [] ''raw'' ''account_number=333/case_number=7/''
      = Inr [''account_number=333/case_number=7/data.json'']
    \<and> list_contents demo_env ([] @ [ListContents ''raw'' ''account_number=333/case_number=7/''])
        ''processed'' ''account_number=333/case_number=7/''
      = Inr [''account_number=333/case_number=7/annotation.json'']
    \<and> get_case_info_from_folder ''account_number=333/case_number=7/'' = Inr (''333'', ''7'')
    \<and> delete_case_folder demo_env ''raw'' ''processed'' ''account_number=333/case_number=7/''
        False [] =
        (True,
         [ListContents ''raw'' ''account_number=333/case_number=7/'',
          ListContents ''processed'' ''account_number=333/case_number=7/'',
          DeleteObjects ''raw'' [''account_number=333/case_number=7/data.json''],
          DeleteObjects ''processed'' [''account_number=333/case_number=7/annotation.json'']])
    \<and> batches 1000 [''account_number=333/case_number=7/data.json'']
        = [[''account_number=333/case_number=7/data.json'']]
    \<and> batches 1000 [''account_number=333/case_number=7/annotation.json'']
        = [[''account_number=333/case_number=7/annotation.json'']])
   \<and> (list_contents denied_env [] ''raw'' ''account_number=333/case_number=7/''
      = Inr [''account_number=333/case_number=7/data.json'']
    \<and> list_contents denied_env ([] @ [ListContents ''raw'' ''account_number=333/case_number=7/''])
        ''processed'' ''account_number=333/case_number=7/''
      = Inr [''account_number=333/case_number=7/annotation.json'']
    \<and> delete_case_folder denied_env ''raw'' ''processed'' ''account_number=333/case_number=7/''
        False [] =
        (False,
         [ListContents ''raw'' ''account_number=333/case_number=7/'',
          ListContents ''processed'' ''account_number=333/case_number=7/'',
          DeleteObjects ''raw'' [''account_number=333/case_number=7/data.json'']])
    \<and> failed_delete_in denied_env
         [ListContents ''raw'' ''account_number=333/case_number=7/'',
          ListContents ''processed'' ''account_number=333/case_number=7/'']
         [DeleteObjects ''raw'' [''account_number=333/case_number=7/data.json'']]
    \<and> ''raw'' \<noteq> ''processed'')"
proof -
  let ?cf = "''account_number=333/case_number=7/''"
  have ro: "list_contents demo_env [] ''raw'' ?cf
      = Inr [''account_number=333/case_number=7/data.json'']"
    by code_simp
  have po: "list_contents demo_env ([] @ [ListContents ''raw'' ?cf]) ''processed'' ?cf
      = Inr [''account_number=333/case_number=7/annotation.json'']"
    by code_simp
  have info: "get_case_info_from_folder ?cf = Inr (''333'', ''7'')"
    by code_simp
  have run: "delete_case_folder demo_env ''raw'' ''processed'' ?cf False [] =
        (True,
         [ListContents ''raw'' ?cf, ListContents ''processed'' ?cf,
          DeleteObjects ''raw'' [''account_number=333/case_number=7/data.json''],
          DeleteObjects ''processed'' [''account_number=333/case_number=7/annotation.json'']])"
    by code_simp
  have b1: "batches 1000 [''account_number=333/case_number=7/data.json'']
        = [[''account_number=333/case_number=7/data.json'']]"
    by code_simp
  have b2: "batches 1000 [''account_number=333/case_number=7/annotation.json'']
        = [[''account_number=333/case_number=7/annotation.json'']]"
    by code_simp
  have ro': "list_contents denied_env [] ''raw'' ?cf
      = Inr [''account_number=333/case_number=7/data.json'']"
    by code_simp
  have po': "list_contents denied_env ([] @ [ListContents ''raw'' ?cf]) ''processed'' ?cf
      = Inr [''account_number=333/case_number=7/annotation.json'']"
    by code_simp
  have run': "delete_case_folder denied_env ''raw'' ''processed'' ?cf False [] =
        (False,
         [ListContents ''raw'' ?cf, ListContents ''processed'' ?cf,
          DeleteObjects ''raw'' [''account_number=333/case_number=7/data.json'']])"
    by code_simp
  have failed: "failed_delete_in denied_env
         [ListContents ''raw'' ?cf, ListContents ''processed'' ?cf]
         [DeleteObjects ''raw'' [''account_number=333/case_number=7/data.json'']]"
    by code_simp
  have distinct: "''raw'' \<noteq> ''processed''" by simp
  have ne: "[''account_number=333/case_number=7/data.json''] \<noteq> []
      \<or> [''account_number=333/case_number=7/annotation.json''] \<noteq> []"
    by simp
  have parse: "\<not> isl (get_case_info_from_folder ?cf)" using info by simp
  note live = delete_case_folder_raw_before_processed [OF ro po ne parse run]
  note denied = delete_case_folder_raw_before_processed [OF ro' po' ne parse run']
  from live denied show ?thesis
    using ro po info run b1 b2 ro' po' run' failed distinct by blast
qed

text \<open>
  C10 as first stated does not hold when both bucket names are the same, which
  \<open>get_configuration\<close> accepts: the failing raw delete is itself a delete call against the
  processed bucket.
\<close>

theorem delete_case_folder_shared_bucket:
  "get_configuration demo_py_int shared_environ =
     Inr \<lparr>raw_bucket_name = ''shared'', processed_bucket_name = ''shared'',
          dry_run = False, max_deletions = 10, excluded_accounts = []\<rparr>
   \<and> delete_case_folder shared_env ''shared'' ''shared'' ''account_number=333/case_number=7/''
       False [] =
       (False,
        [ListContents ''shared'' ''account_number=333/case_number=7/'',
         ListContents ''shared'' ''account_number=333/case_number=7/'',
         DeleteObjects ''shared'' [''account_number=333/case_number=7/data.json'']])
   \<and> failed_delete_in shared_env
        [ListContents ''shared'' ''account_number=333/case_number=7/'',
         ListContents ''shared'' ''account_number=333/case_number=7/'']
        [DeleteObjects ''shared'' [''account_number=333/case_number=7/data.json'']]
   \<and> list_ex (is_delete_on ''shared'')
        (snd (delete_case_folder shared_env ''shared'' ''shared''
               ''account_number=333/case_number=7/'' False []))"
proof -
  have cfg: "get_configuration demo_py_int shared_environ =
     Inr \<lparr>raw_bucket_name = ''shared'', processed_bucket_name = ''shared'',
          dry_run = False, max_deletions = 10, excluded_accounts = []\<rparr>"
    by (simp add: get_configuration_def demo_py_int_def shared_environ_def
        environ_get_def py_lower_def py_isupper_def py_strip_whitespace_def)
  have run: "delete_case_folder shared_env ''shared'' ''shared''
       ''account_number=333/case_number=7/'' False [] =
       (False,
        [ListContents ''shared'' ''account_number=333/case_number=7/'',
         ListContents ''shared'' ''account_number=333/case_number=7/'',
         DeleteObjects ''shared'' [''account_number=333/case_number=7/data.json'']])"
    by code_simp
  have failed: "failed_delete_in shared_env
        [ListContents ''shared'' ''account_number=333/case_number=7/'',
         ListContents ''shared'' ''account_number=333/case_number=7/'']
        [DeleteObjects ''shared'' [''account_number=333/case_number=7/data.json'']]"
    by code_simp
  show ?thesis using cfg failed unfolding run by simp
qed


lemma no_delete_no_failure:
  "\<forall>c \<in> set xs. \<not> is_delete c \<Longrightarrow> \<not> failed_delete_in env before xs"
proof (induction xs arbitrary: before)
  case Nil
  then show ?case by simp
next
  case (Cons c cs)
  then have "\<not> delete_failed env before c" by (cases c) simp_all
  then show ?case using Cons by simp
qed

lemma delete_case_folder_dry_calls:
  assumes "delete_case_folder env rb pb cf True calls = (ok, calls')"
  shows "\<exists>ls. calls' = calls @ ls \<and> (\<forall>c \<in> set ls. \<not> is_delete c \<and> \<not> is_metric c)"
proof -
  have "calls' = calls @ [ListContents rb cf]
      \<or> calls' = calls @ [ListContents rb cf, ListContents pb cf]"
  proof (cases "list_contents env calls rb cf")
    case (Inl e)
    note u = assms [unfolded delete_case_folder_unfold Inl sum.case]
    then show ?thesis by simp
  next
    case ro: (Inr raw_objects)
    show ?thesis
    proof (cases "list_contents env (calls @ [ListContents rb cf]) pb cf")
      case (Inl e)
      note u = assms [unfolded delete_case_folder_unfold ro Inl sum.case]
      then show ?thesis by simp
    next
      case po: (Inr processed_objects)
      note u = assms [unfolded delete_case_folder_unfold ro po sum.case if_True]
      then show ?thesis by (simp split: if_splits)
    qed
  qed
  then show ?thesis by auto
qed

lemma delete_case_folder_failed_delete:
  assumes "delete_case_folder env rb pb cf dry calls = (ok, calls @ new)"
    and "failed_delete_in env calls new"
  shows "\<not> ok"
proof (cases dry)
  case True
  have d: "delete_case_folder env rb pb cf True calls = (ok, calls @ new)"
    using assms(1) True by simp
  from delete_case_folder_dry_calls [OF d] obtain ls where
    ls: "calls @ new = calls @ ls" "\<forall>c \<in> set ls. \<not> is_delete c \<and> \<not> is_metric c"
    by blast
  have "new = ls" using ls(1) by simp
  moreover have "\<not> failed_delete_in env calls ls"
    by (rule no_delete_no_failure) (use ls(2) in blast)
  ultimately show ?thesis using assms(2) by simp
next
  case False
  have d: "delete_case_folder env rb pb cf False calls = (ok, calls @ new)"
    using assms(1) False by simp
  from delete_case_folder_live_calls [OF d] obtain ls rs ps where
    a: "calls @ new = calls @ ls @ rs @ ps"
    and b: "\<forall>c \<in> set ls. \<not> is_delete c"
    and e: "failed_delete_in env (calls @ ls) rs \<longrightarrow> \<not> ok \<and> ps = []"
    and f: "failed_delete_in env (calls @ ls @ rs) ps \<longrightarrow> \<not> ok"
    by blast
  have "new = ls @ rs @ ps" using a by simp
  then have "failed_delete_in env calls ls \<or> failed_delete_in env (calls @ ls) rs
      \<or> failed_delete_in env (calls @ ls @ rs) ps"
    using assms(2) by (simp add: failed_delete_in_append)
  moreover have "\<not> failed_delete_in env calls ls" by (rule no_delete_no_failure [OF b])
  ultimately show ?thesis using e f by blast
qed

lemma case_outcomes_Cons:
  "case_outcomes env rb pb (cf # rest) dry calls =
     (fst (delete_case_folder env rb pb cf dry calls)
        # fst (case_outcomes env rb pb rest dry (snd (delete_case_folder env rb pb cf dry calls))),
      snd (case_outcomes env rb pb rest dry (snd (delete_case_folder env rb pb cf dry calls))))"
  by (simp add: split_beta)

lemma length_case_outcomes:
  "length (fst (case_outcomes env rb pb cfs dry calls)) = length cfs"
  by (induction cfs arbitrary: calls) (simp_all add: case_outcomes_Cons del: case_outcomes.simps(2))

lemma perform_cleanup_loop_counts:
  "perform_cleanup_loop env rb pb cfs dry s f calls =
     ((s + int (length (filter (\<lambda>ok. ok) (fst (case_outcomes env rb pb cfs dry calls)))),
       f + int (length (filter Not (fst (case_outcomes env rb pb cfs dry calls))))),
      snd (case_outcomes env rb pb cfs dry calls))"
proof (induction cfs arbitrary: s f calls)
  case Nil
  then show ?case by simp
next
  case (Cons cf cfs)
  obtain ok calls1 where d: "delete_case_folder env rb pb cf dry calls = (ok, calls1)"
    by (cases "delete_case_folder env rb pb cf dry calls")
  show ?case
  proof (cases ok)
    case True
    then have "perform_cleanup_loop env rb pb (cf # cfs) dry s f calls =
        perform_cleanup_loop env rb pb cfs dry (s + 1) f calls1"
      using d by simp
    then show ?thesis using d True
      by (simp add: Cons.IH case_outcomes_Cons del: case_outcomes.simps(2))
  next
    case False
    then have "perform_cleanup_loop env rb pb (cf # cfs) dry s f calls =
        perform_cleanup_loop env rb pb cfs dry s (f + 1) calls1"
      using d by simp
    then show ?thesis using d False
      by (simp add: Cons.IH case_outcomes_Cons del: case_outcomes.simps(2))
  qed
qed

text \<open>
  C5: when a bulk delete issued for a case folder fails or reports object-level errors,
  \<open>delete_case_folder\<close> returns False for that folder, never True. The batch run
  goes through every case folder, one outcome each, whatever the outcomes before, and
  \<open>perform_cleanup_batch\<close> returns the number of True outcomes and the number of
  False outcomes.
\<close>

theorem perform_cleanup_batch_counts:
  "(delete_case_folder env rb pb cf dry calls = (ok, calls @ new)
      \<and> failed_delete_in env calls new \<longrightarrow> \<not> ok)
   \<and> length (fst (case_outcomes env rb pb cfs dry calls)) = length cfs
   \<and> perform_cleanup_batch env rb pb cfs dry calls =
       ((int (length (filter (\<lambda>ok. ok) (fst (case_outcomes env rb pb cfs dry calls)))),
         int (length (filter Not (fst (case_outcomes env rb pb cfs dry calls))))),
        snd (case_outcomes env rb pb cfs dry calls))"
proof (intro conjI impI)
  assume "delete_case_folder env rb pb cf dry calls = (ok, calls @ new)
      \<and> failed_delete_in env calls new"
  then show "\<not> ok" using delete_case_folder_failed_delete by blast
next
  show "length (fst (case_outcomes env rb pb cfs dry calls)) = length cfs"
    by (rule length_case_outcomes)
next
  show "perform_cleanup_batch env rb pb cfs dry calls =
       ((int (length (filter (\<lambda>ok. ok) (fst (case_outcomes env rb pb cfs dry calls)))),
         int (length (filter Not (fst (case_outcomes env rb pb cfs dry calls))))),
        snd (case_outcomes env rb pb cfs dry calls))"
    unfolding perform_cleanup_batch_def
    by (simp only: perform_cleanup_loop_counts add_0)
qed

theorem perform_cleanup_batch_counts_witness:
  "delete_case_folder denied_env ''raw'' ''processed'' ''account_number=333/case_number=7/''
       False [] =
       (False,
        [] @ [ListContents ''raw'' ''account_number=333/case_number=7/'',
              ListContents ''processed'' ''account_number=333/case_number=7/'',
              DeleteObjects ''raw'' [''account_number=333/case_number=7/data.json'']])
   \<and> failed_delete_in denied_env []
        [ListContents ''raw'' ''account_number=333/case_number=7/'',
         ListContents ''processed'' ''account_number=333/case_number=7/'',
         DeleteObjects ''raw'' [''account_number=333/case_number=7/data.json'']]
   \<and> fst (case_outcomes denied_env ''raw'' ''processed''
          [''account_number=333/case_number=7/'', ''account_number=222/case_number=2/'']
          False []) = [False, True]
   \<and> fst (perform_cleanup_batch denied_env ''raw'' ''processed''
          [''account_number=333/case_number=7/'', ''account_number=222/case_number=2/'']
          False []) = (1, 1)"
proof -
  have run: "delete_case_folder denied_env ''raw'' ''processed''
       ''account_number=333/case_number=7/'' False [] =
       (False,
        [] @ [ListContents ''raw'' ''account_number=333/case_number=7/'',
              ListContents ''processed'' ''account_number=333/case_number=7/'',
              DeleteObjects ''raw'' [''account_number=333/case_number=7/data.json'']])"
    by code_simp
  have failed: "failed_delete_in denied_env []
        [ListContents ''raw'' ''account_number=333/case_number=7/'',
         ListContents ''processed'' ''account_number=333/case_number=7/'',
         DeleteObjects ''raw'' [''account_number=333/case_number=7/data.json'']]"
    by code_simp
  have outs: "fst (case_outcomes denied_env ''raw'' ''processed''
          [''account_number=333/case_number=7/'', ''account_number=222/case_number=2/'']
          False []) = [False, True]"
    by code_simp
  note counts = perform_cleanup_batch_counts [THEN conjunct2, THEN conjunct2,
      of denied_env "''raw''" "''processed''"
        "[''account_number=333/case_number=7/'', ''account_number=222/case_number=2/'']"
        False "[]"]
  have "fst (perform_cleanup_batch denied_env ''raw'' ''processed''
          [''account_number=333/case_number=7/'', ''account_number=222/case_number=2/'']
          False []) = (1, 1)"
    unfolding counts outs by simp
  then show ?thesis using run failed outs by blast
qed

subsection \<open>Dry run\<close>

lemma delete_case_folder_dry_run:
  "delete_case_folder env rb pb cf True calls =
     (would_be_deleted env rb pb cf calls, calls @ listing_calls env rb pb cf calls)"
proof (cases "list_contents env calls rb cf")
  case (Inl e)
  show ?thesis
    unfolding delete_case_folder_unfold would_be_deleted_def listing_calls_def Inl sum.case
    by simp
next
  case ro: (Inr raw_objects)
  show ?thesis
  proof (cases "list_contents env (calls @ [ListContents rb cf]) pb cf")
    case (Inl e)
    show ?thesis
      unfolding delete_case_folder_unfold would_be_deleted_def listing_calls_def ro Inl sum.case
      by simp
  next
    case po: (Inr processed_objects)
    show ?thesis
      unfolding delete_case_folder_unfold would_be_deleted_def listing_calls_def ro po
        sum.case if_True
      by simp
  qed
qed

lemma perform_cleanup_loop_dry_run:
  "fst (fst (perform_cleanup_loop env rb pb cfs True s f calls)) =
     s + int (count_would_be_deleted env rb pb cfs calls)"
proof (induction cfs arbitrary: s f calls)
  case Nil
  then show ?case by simp
next
  case (Cons cf cfs)
  show ?case
    by (cases "would_be_deleted env rb pb cf calls")
      (simp_all add: delete_case_folder_dry_run Cons.IH)
qed

lemma is_read_simps [simp]:
  "is_read (ListCommonPrefixes b p)" "is_read (ListContents b p)" "is_read (HeadObject b k)"
  "\<not> is_read (DeleteObjects b ks)" "\<not> is_read (PutMetricData ns d)"
  by (simp_all add: is_read_def)

lemma perform_cleanup_loop_reads:
  "\<exists>new. snd (perform_cleanup_loop env rb pb cfs True s f calls) = calls @ new
     \<and> list_all is_read new"
proof (induction cfs arbitrary: s f calls)
  case Nil
  then show ?case by simp
next
  case (Cons cf cfs)
  let ?l = "listing_calls env rb pb cf calls"
  have l: "list_all is_read ?l" by (simp add: listing_calls_def)
  show ?case
  proof (cases "would_be_deleted env rb pb cf calls")
    case True
    obtain new where "snd (perform_cleanup_loop env rb pb cfs True (s + 1) f (calls @ ?l))
        = (calls @ ?l) @ new" "list_all is_read new"
      using Cons.IH by blast
    then show ?thesis using True l
      by (intro exI [of _ "?l @ new"]) (simp add: delete_case_folder_dry_run)
  next
    case False
    obtain new where "snd (perform_cleanup_loop env rb pb cfs True s (f + 1) (calls @ ?l))
        = (calls @ ?l) @ new" "list_all is_read new"
      using Cons.IH by blast
    then show ?thesis using False l
      by (intro exI [of _ "?l @ new"]) (simp add: delete_case_folder_dry_run)
  qed
qed

lemma count_total_cases_reads:
  "\<exists>new. snd (count_total_cases env b afs excl n calls) = calls @ new \<and> list_all is_read new"
proof (induction afs arbitrary: n calls)
  case Nil
  then show ?case by simp
next
  case (Cons af afs)
  show ?case
  proof (cases "account_id_of_folder af")
    case (Inl e)
    then show ?thesis using Cons.IH by simp
  next
    case (Inr account_id)
    show ?thesis
    proof (cases "should_skip_account account_id excl")
      case True
      then show ?thesis using Inr Cons.IH by simp
    next
      case False
      let ?c1 = "calls @ [ListCommonPrefixes b af]"
      obtain m where
        "count_total_cases env b (af # afs) excl n calls = count_total_cases env b afs excl m ?c1"
        using Inr False
        by (cases "list_common_prefixes env calls b af") (simp_all add: list_case_folders_def)
      moreover obtain new where
        "snd (count_total_cases env b afs excl m ?c1) = ?c1 @ new" "list_all is_read new"
        using Cons.IH by blast
      ultimately show ?thesis
        by (intro exI [of _ "ListCommonPrefixes b af # new"]) simp
    qed
  qed
qed

lemma check_case_folders_reads:
  "\<exists>new. snd (snd (check_case_folders env pb cfs inc calls)) = calls @ new
     \<and> list_all is_read new"
proof (induction cfs arbitrary: inc calls)
  case Nil
  then show ?case by simp
next
  case (Cons cf cfs)
  let ?c1 = "calls @ [HeadObject pb (cf @ ''data.json'')]"
  obtain r where chk: "check_case_completion env pb cf calls = (r, ?c1)"
    by (simp add: check_case_completion_def Let_def)
  have stop: ?case if "snd (snd (check_case_folders env pb (cf # cfs) inc calls)) = ?c1"
    using that by (intro exI [of _ "[HeadObject pb (cf @ ''data.json'')]"]) simp
  have go: ?case if "check_case_folders env pb (cf # cfs) inc calls
        = check_case_folders env pb cfs inc1 ?c1" for inc1
  proof -
    obtain new where "snd (snd (check_case_folders env pb cfs inc1 ?c1)) = ?c1 @ new"
      "list_all is_read new"
      using Cons.IH by blast
    then show ?case using that
      by (intro exI [of _ "HeadObject pb (cf @ ''data.json'') # new"]) simp
  qed
  show ?case
  proof (cases r)
    case (Inl e)
    then show ?thesis using chk by (intro stop) simp
  next
    case (Inr is_complete)
    show ?thesis
    proof (cases is_complete)
      case True
      then show ?thesis using chk Inr by (intro go [of inc]) simp
    next
      case False
      show ?thesis
      proof (cases "get_case_info_from_folder cf")
        case (Inl e)
        then show ?thesis using chk Inr False by (intro stop) simp
      next
        case info: (Inr i)
        then show ?thesis using chk Inr False by (intro go [of "inc @ [cf]"]) simp
      qed
    qed
  qed
qed

lemma scan_account_folder_reads:
  "\<exists>new. snd (snd (scan_account_folder env rb pb excl af inc calls)) = calls @ new
     \<and> list_all is_read new"
proof (cases "account_id_of_folder af")
  case (Inl e)
  then show ?thesis by (simp add: scan_account_folder_def)
next
  case (Inr account_id)
  show ?thesis
  proof (cases "should_skip_account account_id excl")
    case True
    then show ?thesis using Inr by (simp add: scan_account_folder_def)
  next
    case False
    let ?c1 = "calls @ [ListCommonPrefixes rb af]"
    show ?thesis
    proof (cases "list_common_prefixes env calls rb af")
      case (Inl e)
      then show ?thesis using Inr False
        by (intro exI [of _ "[ListCommonPrefixes rb af]"])
          (simp add: scan_account_folder_def list_case_folders_def)
    next
      case cfs: (Inr case_folders)
      obtain new where "snd (snd (check_case_folders env pb case_folders inc ?c1)) = ?c1 @ new"
        "list_all is_read new"
        using check_case_folders_reads by blast
      then show ?thesis using Inr False cfs
        by (intro exI [of _ "ListCommonPrefixes rb af # new"])
          (simp add: scan_account_folder_def list_case_folders_def)
    qed
  qed
qed

lemma scan_account_folders_reads:
  "\<exists>new. snd (scan_account_folders env rb pb excl afs inc calls) = calls @ new
     \<and> list_all is_read new"
proof (induction afs arbitrary: inc calls)
  case Nil
  then show ?case by simp
next
  case (Cons af afs)
  obtain r inc1 calls1 where
    one: "scan_account_folder env rb pb excl af inc calls = (r, inc1, calls1)"
    by (cases "scan_account_folder env rb pb excl af inc calls")
  obtain n1 where n1: "calls1 = calls @ n1" "list_all is_read n1"
    using scan_account_folder_reads [of env rb pb excl af inc calls] one by auto
  have step: "scan_account_folders env rb pb excl (af # afs) inc calls
      = scan_account_folders env rb pb excl afs inc1 calls1"
    using one by (cases r) simp_all
  obtain n2 where "snd (scan_account_folders env rb pb excl afs inc1 calls1) = calls1 @ n2"
    "list_all is_read n2"
    using Cons.IH by blast
  then show ?case using n1 step by (intro exI [of _ "n1 @ n2"]) simp
qed

lemma identify_incomplete_cases_reads:
  "\<exists>new. snd (identify_incomplete_cases env rb pb excl calls) = calls @ new
     \<and> list_all is_read new"
proof (cases "list_common_prefixes env calls rb ''account_number=''")
  case (Inl e)
  then show ?thesis
    by (intro exI [of _ "[ListCommonPrefixes rb ''account_number='']"])
      (simp add: identify_incomplete_cases_def list_account_folders_def)
next
  case (Inr afs)
  let ?c1 = "calls @ [ListCommonPrefixes rb ''account_number='']"
  obtain new where "snd (scan_account_folders env rb pb excl afs [] ?c1) = ?c1 @ new"
    "list_all is_read new"
    using scan_account_folders_reads by blast
  then show ?thesis using Inr
    by (intro exI [of _ "ListCommonPrefixes rb ''account_number='' # new"])
      (simp add: identify_incomplete_cases_def list_account_folders_def split_beta)
qed


lemma perform_cleanup_batch_dry_run:
  "fst (fst (perform_cleanup_batch env rb pb cfs True calls)) =
     int (count_would_be_deleted env rb pb cfs calls)"
  by (simp add: perform_cleanup_batch_def perform_cleanup_loop_dry_run)

lemma perform_cleanup_batch_reads:
  "\<exists>new. snd (perform_cleanup_batch env rb pb cfs True calls) = calls @ new
     \<and> list_all is_read new"
  unfolding perform_cleanup_batch_def by (rule perform_cleanup_loop_reads)

lemma cleanup_try_reads:
  assumes "dry_run config"
  shows "\<exists>new. snd (snd (cleanup_try env config calls)) = calls @ new \<and> list_all is_read new"
proof -
  let ?rb = "raw_bucket_name config" and ?pb = "processed_bucket_name config"
  let ?excl = "excluded_accounts config"
  let ?l = "ListCommonPrefixes ?rb ''account_number=''"
  let ?c1 = "calls @ [?l]"
  have laf: "list_account_folders env ?rb calls =
      (list_common_prefixes env calls ?rb ''account_number='', ?c1)"
    by (simp add: list_account_folders_def)
  have stop1: ?thesis if "snd (snd (cleanup_try env config calls)) = ?c1"
    using that by (intro exI [of _ "[?l]"]) simp
  show ?thesis
  proof (cases "list_common_prefixes env calls ?rb ''account_number=''")
    case (Inl e)
    then show ?thesis by (intro stop1) (simp add: cleanup_try_def laf)
  next
    case afs: (Inr account_folders)
    show ?thesis
    proof (cases "account_folders = []")
      case True
      then show ?thesis using afs by (intro stop1) (simp add: cleanup_try_def laf)
    next
      case ne: False
      obtain scanned c2 where ctc:
        "count_total_cases env ?rb account_folders ?excl 0 ?c1 = (scanned, c2)"
        by (cases "count_total_cases env ?rb account_folders ?excl 0 ?c1")
      obtain n2 where n2: "c2 = ?c1 @ n2" "list_all is_read n2"
        using count_total_cases_reads [of env ?rb account_folders ?excl 0 ?c1] ctc by auto
      show ?thesis
      proof (cases "count_accounts_processed account_folders ?excl")
        case (Inl e)
        then have "snd (snd (cleanup_try env config calls)) = c2"
          using afs ne ctc by (simp add: cleanup_try_def laf)
        then show ?thesis using n2 by (intro exI [of _ "?l # n2"]) simp
      next
        case processed: (Inr p)
        obtain r3 c3 where idf: "identify_incomplete_cases env ?rb ?pb ?excl c2 = (r3, c3)"
          by (cases "identify_incomplete_cases env ?rb ?pb ?excl c2")
        obtain n3 where n3: "c3 = c2 @ n3" "list_all is_read n3"
          using identify_incomplete_cases_reads [of env ?rb ?pb ?excl c2] idf by auto
        show ?thesis
        proof (cases r3)
          case (Inl e)
          then have "snd (snd (cleanup_try env config calls)) = c3"
            using afs ne ctc processed idf by (simp add: cleanup_try_def laf)
          then show ?thesis using n2 n3 by (intro exI [of _ "?l # n2 @ n3"]) simp
        next
          case inc: (Inr incomplete_cases)
          let ?cs = "validate_cleanup_safety incomplete_cases (max_deletions config)"
          show ?thesis
          proof (cases "?cs = []")
            case True
            then have "snd (snd (cleanup_try env config calls)) = c3"
              using afs ne ctc processed idf inc by (simp add: cleanup_try_def laf Let_def)
            then show ?thesis using n2 n3 by (intro exI [of _ "?l # n2 @ n3"]) simp
          next
            case False
            obtain n4 where n4:
              "snd (perform_cleanup_batch env ?rb ?pb ?cs True c3) = c3 @ n4"
              "list_all is_read n4"
              using perform_cleanup_batch_reads by blast
            have "snd (snd (cleanup_try env config calls)) =
                snd (perform_cleanup_batch env ?rb ?pb ?cs True c3)"
              using afs ne ctc processed idf inc False assms
              by (simp add: cleanup_try_def laf split_beta Let_def)
            then show ?thesis using n2 n3 n4
              by (intro exI [of _ "?l # n2 @ n3 @ n4"]) simp
          qed
        qed
      qed
    qed
  qed
qed

lemma cleanup_incomplete_cases_removed:
  assumes "dry_run config"
    and "list_account_folders env (raw_bucket_name config) calls = (Inr afs, calls1)"
    and "afs \<noteq> []"
    and "count_total_cases env (raw_bucket_name config) afs (excluded_accounts config) 0 calls1
           = (scanned, calls2)"
    and "count_accounts_processed afs (excluded_accounts config) = Inr processed"
    and "identify_incomplete_cases env (raw_bucket_name config) (processed_bucket_name config)
           (excluded_accounts config) calls2 = (Inr inc, calls3)"
  shows "\<exists>d. fst (cleanup_incomplete_cases env config calls) = Inr d
    \<and> map_of d ''cases_removed'' =
        Some (PInt (int (count_would_be_deleted env (raw_bucket_name config)
           (processed_bucket_name config)
           (validate_cleanup_safety inc (max_deletions config)) calls3)))"
proof (cases "validate_cleanup_safety inc (max_deletions config) = []")
  case True
  then show ?thesis using assms
    by (simp add: cleanup_incomplete_cases_def cleanup_try_def Let_def)
next
  case False
  then show ?thesis using assms
    perform_cleanup_batch_dry_run [of env "raw_bucket_name config" "processed_bucket_name config"
      "validate_cleanup_safety inc (max_deletions config)" calls3]
    by (simp add: cleanup_incomplete_cases_def cleanup_try_def Let_def split_beta)
qed

text \<open>
  C2 (as amended): in a run with \<open>dry_run\<close> set, no delete call is issued and no
  metric is published. When the run reaches the batch, the cases\_removed entry of its
  result is the number of candidate cases whose two object listings succeeded, not
  counting a case that has objects but whose folder path does not parse as account and
  case.
\<close>

theorem dry_run_purity:
  assumes "dry_run config"
  shows "(\<exists>new. snd (cleanup_incomplete_cases env config calls) = calls @ new
            \<and> (\<forall>c \<in> set new. \<not> is_delete c \<and> \<not> is_metric c))
    \<and> (list_account_folders env (raw_bucket_name config) calls = (Inr afs, calls1)
        \<and> afs \<noteq> []
        \<and> count_total_cases env (raw_bucket_name config) afs (excluded_accounts config) 0 calls1
             = (scanned, calls2)
        \<and> count_accounts_processed afs (excluded_accounts config) = Inr processed
        \<and> identify_incomplete_cases env (raw_bucket_name config) (processed_bucket_name config)
             (excluded_accounts config) calls2 = (Inr inc, calls3)
        \<longrightarrow> (\<exists>d. fst (cleanup_incomplete_cases env config calls) = Inr d
              \<and> map_of d ''cases_removed'' =
                  Some (PInt (int (count_would_be_deleted env (raw_bucket_name config)
                     (processed_bucket_name config)
                     (validate_cleanup_safety inc (max_deletions config)) calls3)))))"
proof (intro conjI impI)
  obtain new where new: "snd (snd (cleanup_try env config calls)) = calls @ new"
    "list_all is_read new"
    using cleanup_try_reads [OF assms] by blast
  have "snd (cleanup_incomplete_cases env config calls) = snd (snd (cleanup_try env config calls))"
    using assms by (simp add: cleanup_incomplete_cases_def Let_def split_beta)
  then show "\<exists>new. snd (cleanup_incomplete_cases env config calls) = calls @ new
            \<and> (\<forall>c \<in> set new. \<not> is_delete c \<and> \<not> is_metric c)"
    using new by (auto simp: list_all_iff is_read_def)
next
  assume "list_account_folders env (raw_bucket_name config) calls = (Inr afs, calls1)
        \<and> afs \<noteq> []
        \<and> count_total_cases env (raw_bucket_name config) afs (excluded_accounts config) 0 calls1
             = (scanned, calls2)
        \<and> count_accounts_processed afs (excluded_accounts config) = Inr processed
        \<and> identify_incomplete_cases env (raw_bucket_name config) (processed_bucket_name config)
             (excluded_accounts config) calls2 = (Inr inc, calls3)"
  then show "\<exists>d. fst (cleanup_incomplete_cases env config calls) = Inr d
              \<and> map_of d ''cases_removed'' =
                  Some (PInt (int (count_would_be_deleted env (raw_bucket_name config)
                     (processed_bucket_name config)
                     (validate_cleanup_safety inc (max_deletions config)) calls3)))"
    using cleanup_incomplete_cases_removed [OF assms] by blast
qed

theorem dry_run_purity_witness:
  "dry_run demo_config
   \<and> identify_incomplete_cases demo_env (raw_bucket_name demo_config)
        (processed_bucket_name demo_config) (excluded_accounts demo_config)
        [ListCommonPrefixes ''raw'' ''account_number='',
         ListCommonPrefixes ''raw'' ''account_number=111/'',
         ListCommonPrefixes ''raw'' ''account_number=222/'',
         ListCommonPrefixes ''raw'' ''account_number=333/'']
       = (Inr [''account_number=222/case_number=2/'', ''account_number=333/case_number=7/''],
          [ListCommonPrefixes ''raw'' ''account_number='',
           ListCommonPrefixes ''raw'' ''account_number=111/'',
           ListCommonPrefixes ''raw'' ''account_number=222/'',
           ListCommonPrefixes ''raw'' ''account_number=333/'',
           ListCommonPrefixes ''raw'' ''account_number='',
           ListCommonPrefixes ''raw'' ''account_number=111/'',
           ListCommonPrefixes ''raw'' ''account_number=222/'',
           HeadObject ''processed'' ''account_number=222/case_number=1/data.json'',
           HeadObject ''processed'' ''account_number=222/case_number=2/data.json'',
           ListCommonPrefixes ''raw'' ''account_number=333/'',
           HeadObject ''processed'' ''account_number=333/case_number=7/data.json''])
   \<and> map_of (projr (fst (cleanup_incomplete_cases demo_env demo_config [])))
         ''cases_removed'' = Some (PInt 2)
   \<and> snd (cleanup_incomplete_cases demo_env demo_config []) =
       [ListCommonPrefixes ''raw'' ''account_number='',
        ListCommonPrefixes ''raw'' ''account_number=111/'',
        ListCommonPrefixes ''raw'' ''account_number=222/'',
        ListCommonPrefixes ''raw'' ''account_number=333/'',
        ListCommonPrefixes ''raw'' ''account_number='',
        ListCommonPrefixes ''raw'' ''account_number=111/'',
        ListCommonPrefixes ''raw'' ''account_number=222/'',
        HeadObject ''processed'' ''account_number=222/case_number=1/data.json'',
        HeadObject ''processed'' ''account_number=222/case_number=2/data.json'',
        ListCommonPrefixes ''raw'' ''account_number=333/'',
        HeadObject ''processed'' ''account_number=333/case_number=7/data.json'',
        ListContents ''raw'' ''account_number=222/case_number=2/'',
        ListContents ''processed'' ''account_number=222/case_number=2/'',
        ListContents ''raw'' ''account_number=333/case_number=7/'',
        ListContents ''processed'' ''account_number=333/case_number=7/'']"
proof -
  let ?afs = "[''account_number=111/'', ''account_number=222/'', ''account_number=333/'']"
  let ?c1 = "[ListCommonPrefixes ''raw'' ''account_number='']"
  let ?c2 = "[ListCommonPrefixes ''raw'' ''account_number='',
         ListCommonPrefixes ''raw'' ''account_number=111/'',
         ListCommonPrefixes ''raw'' ''account_number=222/'',
         ListCommonPrefixes ''raw'' ''account_number=333/'']"
  let ?inc = "[''account_number=222/case_number=2/'', ''account_number=333/case_number=7/'']"
  let ?c3 = "[ListCommonPrefixes ''raw'' ''account_number='',
           ListCommonPrefixes ''raw'' ''account_number=111/'',
           ListCommonPrefixes ''raw'' ''account_number=222/'',
           ListCommonPrefixes ''raw'' ''account_number=333/'',
           ListCommonPrefixes ''raw'' ''account_number='',
           ListCommonPrefixes ''raw'' ''account_number=111/'',
           ListCommonPrefixes ''raw'' ''account_number=222/'',
           HeadObject ''processed'' ''account_number=222/case_number=1/data.json'',
           HeadObject ''processed'' ''account_number=222/case_number=2/data.json'',
           ListCommonPrefixes ''raw'' ''account_number=333/'',
           HeadObject ''processed'' ''account_number=333/case_number=7/data.json'']"
  have dry: "dry_run demo_config" by (simp add: demo_config_def)
  have h1: "list_account_folders demo_env (raw_bucket_name demo_config) [] = (Inr ?afs, ?c1)"
    by code_simp
  have h2: "?afs \<noteq> []" by simp
  have h3: "count_total_cases demo_env (raw_bucket_name demo_config) ?afs
              (excluded_accounts demo_config) 0 ?c1 = (3, ?c2)"
    by code_simp
  have h4: "count_accounts_processed ?afs (excluded_accounts demo_config) = Inr 3"
    by code_simp
  have h5: "identify_incomplete_cases demo_env (raw_bucket_name demo_config)
        (processed_bucket_name demo_config) (excluded_accounts demo_config) ?c2
       = (Inr ?inc, ?c3)"
    by code_simp
  have cnt: "count_would_be_deleted demo_env (raw_bucket_name demo_config)
       (processed_bucket_name demo_config)
       (validate_cleanup_safety ?inc (max_deletions demo_config)) ?c3 = 2"
    by code_simp
  have calls: "snd (cleanup_incomplete_cases demo_env demo_config []) = ?c3 @
       [ListContents ''raw'' ''account_number=222/case_number=2/'',
        ListContents ''processed'' ''account_number=222/case_number=2/'',
        ListContents ''raw'' ''account_number=333/case_number=7/'',
        ListContents ''processed'' ''account_number=333/case_number=7/'']"
    by code_simp
  from dry_run_purity [OF dry, THEN conjunct2, rule_format, OF conjI, OF h1 conjI,
      OF h2 conjI, OF h3 conjI, OF h4 h5]
  have "map_of (projr (fst (cleanup_incomplete_cases demo_env demo_config [])))
         ''cases_removed'' = Some (PInt 2)"
    unfolding cnt by auto
  then show ?thesis using dry h5 calls by simp
qed

text \<open>
  A raw bucket with the folder \<^verbatim>\<open>account_number=444/readme/\<close>: the folder is a
  candidate (it has no marker), both its listings succeed in the dry run, and
  cases\_removed is 0, not 1, because the path does not parse.
\<close>

theorem dry_run_unparsable_folder:
  "dry_run demo_config
   \<and> fst (identify_incomplete_cases odd_env ''raw'' ''processed'' []
          [ListCommonPrefixes ''raw'' ''account_number='',
           ListCommonPrefixes ''raw'' ''account_number=444/''])
       = Inr [''account_number=444/readme/'']
   \<and> validate_cleanup_safety [''account_number=444/readme/''] 10
       = [''account_number=444/readme/'']
   \<and> list_contents odd_env
         [ListCommonPrefixes ''raw'' ''account_number='',
          ListCommonPrefixes ''raw'' ''account_number=444/'',
          ListCommonPrefixes ''raw'' ''account_number='',
          ListCommonPrefixes ''raw'' ''account_number=444/'',
          HeadObject ''processed'' ''account_number=444/readme/data.json'']
         ''raw'' ''account_number=444/readme/''
       = Inr [''account_number=444/readme/notes.txt'']
   \<and> list_contents odd_env
         [ListCommonPrefixes ''raw'' ''account_number='',
          ListCommonPrefixes ''raw'' ''account_number=444/'',
          ListCommonPrefixes ''raw'' ''account_number='',
          ListCommonPrefixes ''raw'' ''account_number=444/'',
          HeadObject ''processed'' ''account_number=444/readme/data.json'',
          ListContents ''raw'' ''account_number=444/readme/'']
         ''processed'' ''account_number=444/readme/''
       = Inr []
   \<and> snd (cleanup_incomplete_cases odd_env demo_config []) =
         [ListCommonPrefixes ''raw'' ''account_number='',
          ListCommonPrefixes ''raw'' ''account_number=444/'',
          ListCommonPrefixes ''raw'' ''account_number='',
          ListCommonPrefixes ''raw'' ''account_number=444/'',
          HeadObject ''processed'' ''account_number=444/readme/data.json'',
          ListContents ''raw'' ''account_number=444/readme/'',
          ListContents ''processed'' ''account_number=444/readme/'']
   \<and> map_of (projr (fst (cleanup_incomplete_cases odd_env demo_config [])))
         ''cases_removed'' = Some (PInt 0)
   \<and> map_of (projr (fst (cleanup_incomplete_cases odd_env demo_config [])))
         ''cases_removed'' \<noteq> Some (PInt 1)"
  by code_simp

subsection \<open>The index of existing cases\<close>

lemma py_split_not_Nil: "py_split sep s \<noteq> []"
  by (induction s) (auto split: list.splits)

lemma py_split_no_sep: "sep \<notin> set s \<Longrightarrow> py_split sep s = [s]"
  by (induction s) auto

lemma py_split_append:
  "py_split sep (xs @ sep # ys) = py_split sep xs @ py_split sep ys"
proof (induction xs)
  case Nil
  then show ?case by simp
next
  case (Cons x xs)
  obtain p ps where p: "py_split sep xs = p # ps"
    using py_split_not_Nil [of sep xs] by (cases "py_split sep xs") auto
  show ?case using Cons p by simp
qed

lemma py_startswith_append: "py_startswith s pre \<Longrightarrow> \<exists>rest. s = pre @ rest"
  unfolding py_startswith_def by (metis append_take_drop_id)

lemma py_endswith_append: "py_endswith (xs @ suf) suf"
  by (simp add: py_endswith_def)

lemma py_startswith_split:
  assumes "py_startswith s ''case_number=''"
  shows "\<exists>cid. py_index (py_split CHR ''='' s) 1 = Inr cid"
proof -
  obtain rest where "s = ''case_number='' @ rest"
    using py_startswith_append [OF assms] by blast
  then have s: "s = ''case_number'' @ CHR ''='' # rest" by simp
  have "py_split CHR ''='' s
      = py_split CHR ''='' ''case_number'' @ py_split CHR ''='' rest"
    unfolding s by (rule py_split_append)
  moreover have "py_split CHR ''='' ''case_number'' = [''case_number'']"
    by (rule py_split_no_sep) simp
  moreover obtain p ps where "py_split CHR ''='' rest = p # ps"
    using py_split_not_Nil [of "CHR ''=''" rest]
    by (cases "py_split CHR ''='' rest") auto
  ultimately show ?thesis by (simp add: py_index_def)
qed

lemma existing_case_of_key_no_exception: "existing_case_of_key key \<noteq> Inl e"
proof
  assume a: "existing_case_of_key key = Inl e"
  let ?part = "py_split CHR ''/'' key ! (length (py_split CHR ''/'' key) - 2)"
  have starts: "py_startswith ?part ''case_number=''"
    using a unfolding existing_case_of_key_def Let_def by (simp split: if_splits)
  then have "py_index (py_split CHR ''='' ?part) 1 = Inl e"
    using a unfolding existing_case_of_key_def Let_def
    by (simp split: if_splits sum.splits)
  then show False using py_startswith_split [OF starts] by simp
qed

lemma collect_existing_cases_set:
  "collect_existing_cases keys acc =
     Inr (acc \<union> {cid. \<exists>key \<in> set keys. existing_case_of_key key = Inr (Some cid)})"
proof (induction keys arbitrary: acc)
  case Nil
  then show ?case by simp
next
  case (Cons key keys)
  show ?case
  proof (cases "existing_case_of_key key")
    case (Inl e)
    then show ?thesis using existing_case_of_key_no_exception by blast
  next
    case (Inr r)
    then show ?thesis using Cons.IH by (cases r) auto
  qed
qed

lemma existing_case_of_marker_key:
  assumes "CHR ''/'' \<notin> set cid" and "CHR ''='' \<notin> set cid"
  shows "existing_case_of_key (af @ ''/case_number='' @ cid @ ''/data.json'') = Inr (Some cid)"
proof -
  let ?key = "af @ ''/case_number='' @ cid @ ''/data.json''"
  let ?part = "''case_number='' @ cid"
  have ends: "py_endswith ?key ''/data.json''"
    using py_endswith_append [of "af @ ''/case_number='' @ cid" "''/data.json''"] by simp
  have k: "?key = af @ CHR ''/'' # (?part @ CHR ''/'' # ''data.json'')" by simp
  have nosl: "CHR ''/'' \<notin> set ?part" using assms(1) by simp
  have "py_split CHR ''/'' ?key
      = py_split CHR ''/'' af @ py_split CHR ''/'' (?part @ CHR ''/'' # ''data.json'')"
    unfolding k by (rule py_split_append)
  also have "py_split CHR ''/'' (?part @ CHR ''/'' # ''data.json'')
      = py_split CHR ''/'' ?part @ py_split CHR ''/'' ''data.json''"
    by (rule py_split_append)
  also have "py_split CHR ''/'' ?part = [?part]" by (rule py_split_no_sep [OF nosl])
  also have "py_split CHR ''/'' ''data.json'' = [''data.json'']"
    by (rule py_split_no_sep) simp
  finally have parts: "py_split CHR ''/'' ?key = py_split CHR ''/'' af @ [?part, ''data.json'']"
    by simp
  have len: "length (py_split CHR ''/'' ?key) \<ge> 2" unfolding parts by simp
  have nth: "py_split CHR ''/'' ?key ! (length (py_split CHR ''/'' ?key) - 2) = ?part"
    unfolding parts by (simp add: nth_append)
  have starts: "py_startswith ?part ''case_number=''" by (simp add: py_startswith_def)
  have "py_split CHR ''='' ?part = py_split CHR ''='' ''case_number'' @ py_split CHR ''='' cid"
    using py_split_append [of "CHR ''=''" "''case_number''" cid] by simp
  also have "py_split CHR ''='' ''case_number'' = [''case_number'']"
    by (rule py_split_no_sep) simp
  also have "py_split CHR ''='' cid = [cid]" by (rule py_split_no_sep [OF assms(2)])
  finally have idx: "py_index (py_split CHR ''='' ?part) 1 = Inr cid"
    by (simp add: py_index_def)
  show ?thesis
    unfolding existing_case_of_key_def Let_def nth
    using ends len starts idx by simp
qed

text \<open>
  C7: \<open>get_existing_cases_batch\<close> returns a set in every case. When the listing of
  the account prefix fails, the set is empty. When it succeeds, the set holds exactly
  the ids extracted from the listed keys; only keys ending in \<^verbatim>\<open>/data.json\<close> yield an
  id, and a key \<^verbatim>\<open><account_folder>/case_number=<id>/data.json\<close> yields \<^verbatim>\<open><id>\<close>.
\<close>

theorem get_existing_cases_batch_fallback:
  "(isl (list_contents env calls bucket (af @ ''/'')) \<longrightarrow>
      fst (get_existing_cases_batch env bucket af calls) = {})
   \<and> (list_contents env calls bucket (af @ ''/'') = Inr keys \<longrightarrow>
        fst (get_existing_cases_batch env bucket af calls)
          = {cid. \<exists>key \<in> set keys. existing_case_of_key key = Inr (Some cid)}
        \<and> (\<forall>key \<in> set keys. \<forall>cid. existing_case_of_key key = Inr (Some cid) \<longrightarrow>
              py_endswith key ''/data.json'')
        \<and> (CHR ''/'' \<notin> set cid \<and> CHR ''='' \<notin> set cid
             \<and> af @ ''/case_number='' @ cid @ ''/data.json'' \<in> set keys \<longrightarrow>
             cid \<in> fst (get_existing_cases_batch env bucket af calls)))"
proof (intro conjI impI ballI allI)
  assume "isl (list_contents env calls bucket (af @ ''/''))"
  then show "fst (get_existing_cases_batch env bucket af calls) = {}"
    by (cases "list_contents env calls bucket (af @ ''/'')")
      (simp_all add: get_existing_cases_batch_def)
next
  assume keys: "list_contents env calls bucket (af @ ''/'') = Inr keys"
  then show eq: "fst (get_existing_cases_batch env bucket af calls)
          = {cid. \<exists>key \<in> set keys. existing_case_of_key key = Inr (Some cid)}"
    by (simp add: get_existing_cases_batch_def collect_existing_cases_set)
  assume "CHR ''/'' \<notin> set cid \<and> CHR ''='' \<notin> set cid
             \<and> af @ ''/case_number='' @ cid @ ''/data.json'' \<in> set keys"
  then show "cid \<in> fst (get_existing_cases_batch env bucket af calls)"
    unfolding eq using existing_case_of_marker_key [of cid af] by blast
next
  fix key cid
  assume "existing_case_of_key key = Inr (Some cid)"
  then show "py_endswith key ''/data.json''"
    unfolding existing_case_of_key_def by (simp split: if_splits)
qed

theorem get_existing_cases_batch_fallback_witness:
  "isl (list_contents index_env [] ''processed'' (''account_number=111'' @ ''/''))
   \<and> fst (get_existing_cases_batch index_env ''processed'' ''account_number=111'' []) = {}
   \<and> list_contents index_env [] ''processed'' (''account_number=222'' @ ''/'') =
       Inr [''account_number=222/case_number=1/data.json'',
            ''account_number=222/case_number=1/annotation.json'',
            ''account_number=222/case_number=3/data.json'']
   \<and> fst (get_existing_cases_batch index_env ''processed'' ''account_number=222'' [])
       = {''1'', ''3''}
   \<and> ''3'' \<in> fst (get_existing_cases_batch index_env ''processed'' ''account_number=222'' [])"
proof -
  let ?keys = "[''account_number=222/case_number=1/data.json'',
            ''account_number=222/case_number=1/annotation.json'',
            ''account_number=222/case_number=3/data.json'']"
  have failed: "isl (list_contents index_env [] ''processed'' (''account_number=111'' @ ''/''))"
    by code_simp
  have listed: "list_contents index_env [] ''processed'' (''account_number=222'' @ ''/'')
      = Inr ?keys"
    by code_simp
  have empty: "fst (get_existing_cases_batch index_env ''processed'' ''account_number=111'' []) = {}"
    using get_existing_cases_batch_fallback
      [of index_env "[]" "''processed''" "''account_number=111''", THEN conjunct1] failed
    by blast
  have ids: "fst (get_existing_cases_batch index_env ''processed'' ''account_number=222'' [])
       = {''1'', ''3''}"
    by code_simp
  have key3: "''account_number=222'' @ ''/case_number='' @ ''3'' @ ''/data.json'' \<in> set ?keys"
    by simp
  have "''3'' \<in> fst (get_existing_cases_batch index_env ''processed'' ''account_number=222'' [])"
    using get_existing_cases_batch_fallback
      [of index_env "[]" "''processed''" "''account_number=222''" ?keys "''3''",
       THEN conjunct2, rule_format, OF listed, THEN conjunct2, THEN conjunct2] key3
    by simp
  then show ?thesis using failed listed empty ids by blast
qed

subsection \<open>The result of a run\<close>

lemma cleanup_try_exits:
  "fst (cleanup_try env config calls) = Returned d \<Longrightarrow>
     fst (list_account_folders env (raw_bucket_name config) calls) = Inr []
     \<and> d = [(''accounts_processed'', PInt 0), (''cases_scanned'', PInt 0),
            (''cases_removed'', PInt 0), (''errors'', PInt 0),
            (''duration_seconds'', PInt 0)]"
  unfolding cleanup_try_def Let_def
  by (auto split: prod.splits sum.splits if_splits)

lemma cleanup_incomplete_cases_fields:
  assumes "fst (cleanup_incomplete_cases env config calls) = Inr d"
  shows "map fst d = [''accounts_processed'', ''cases_scanned'', ''cases_removed'',
                      ''errors'', ''duration_seconds'', ''dry_run'']
    \<or> (fst (list_account_folders env (raw_bucket_name config) calls) = Inr []
        \<and> map fst d = [''accounts_processed'', ''cases_scanned'', ''cases_removed'',
                        ''errors'', ''duration_seconds''])"
proof (cases "fst (cleanup_try env config calls)")
  case (Raised e)
  then show ?thesis using assms
    by (simp add: cleanup_incomplete_cases_def Let_def split_beta)
next
  case (Returned d')
  then have "d = d'" using assms
    by (simp add: cleanup_incomplete_cases_def Let_def split_beta)
  then show ?thesis using cleanup_try_exits [OF Returned] by simp
next
  case Completed
  then show ?thesis using assms
    by (auto simp: cleanup_incomplete_cases_def Let_def split_beta)
qed

lemma lambda_handler_status:
  "statusCode (fst (lambda_handler env py_int environ calls)) =
     (if isl (get_configuration py_int environ) then 500
      else if isl (fst (cleanup_incomplete_cases env (projr (get_configuration py_int environ))
                          calls))
      then 500 else 200)"
  unfolding lambda_handler_def
  by (auto split: sum.splits prod.splits)

text \<open>
  C8 at a raw bucket with no account folders: the run is not fatal, the handler answers
  200, and the result has five fields, without \<^verbatim>\<open>dry_run\<close> (the \<^verbatim>\<open>return\<close> inside
  the \<^verbatim>\<open>try\<close> block builds its own dictionary). Every other result that is returned has
  the six fields, and the handler answers 500 exactly when the configuration or the run
  raised (the two lemmas before the theorem).
\<close>

theorem cleanup_without_account_folders_omits_dry_run:
  "get_configuration demo_py_int demo_environ = Inr demo_config
   \<and> list_account_folders empty_env ''raw'' [] =
       (Inr [], [ListCommonPrefixes ''raw'' ''account_number=''])
   \<and> fst (cleanup_incomplete_cases empty_env demo_config []) =
       Inr [(''accounts_processed'', PInt 0), (''cases_scanned'', PInt 0),
            (''cases_removed'', PInt 0), (''errors'', PInt 0),
            (''duration_seconds'', PInt 0)]
   \<and> map_of (projr (fst (cleanup_incomplete_cases empty_env demo_config []))) ''dry_run'' = None
   \<and> fst (lambda_handler empty_env demo_py_int demo_environ []) =
       \<lparr>statusCode = 200,
        body = CompletedBody ''Case cleanup completed successfully''
          [(''accounts_processed'', PInt 0), (''cases_scanned'', PInt 0),
           (''cases_removed'', PInt 0), (''errors'', PInt 0),
           (''duration_seconds'', PInt 0)]\<rparr>"
proof -
  have cfg: "get_configuration demo_py_int demo_environ = Inr demo_config"
    by (simp add: get_configuration_def demo_py_int_def demo_environ_def demo_config_def
        environ_get_def py_lower_def py_isupper_def py_strip_whitespace_def)
  have laf: "list_account_folders empty_env ''raw'' [] =
       (Inr [], [ListCommonPrefixes ''raw'' ''account_number=''])"
    by (simp add: list_account_folders_def empty_env_def table_env_def)
  have run: "fst (cleanup_incomplete_cases empty_env demo_config []) =
       Inr [(''accounts_processed'', PInt 0), (''cases_scanned'', PInt 0),
            (''cases_removed'', PInt 0), (''errors'', PInt 0),
            (''duration_seconds'', PInt 0)]"
    using laf
    by (simp add: cleanup_incomplete_cases_def cleanup_try_def demo_config_def Let_def)
  have "fst (lambda_handler empty_env demo_py_int demo_environ []) =
       \<lparr>statusCode = 200,
        body = CompletedBody ''Case cleanup completed successfully''
          [(''accounts_processed'', PInt 0), (''cases_scanned'', PInt 0),
           (''cases_removed'', PInt 0), (''errors'', PInt 0),
           (''duration_seconds'', PInt 0)]\<rparr>"
    using run cfg by (simp add: lambda_handler_def split_beta split: sum.splits)
  then show ?thesis using cfg laf run by simp
qed

end
